theory Spec2Isabelle
  imports Complex_Main "HOL-Library.Char_ord" "HOL-Library.List_Lexorder"
begin

section \<open>Python values used by data_dictionary_index.py\<close>

text \<open>
  The functions below carry the names of the methods of \<open>DataDictionaryIndex\<close> without
  the leading underscore.

  Strings are \<open>string\<close>. The program joins strings, tests them for emptiness, counts
  the separator \<open>/\<close> and sorts names, which behave the same on code points and on the
  bytes of their UTF-8 encoding.
  A \<open>Dict[str, str]\<close> is an association list with distinct keys, kept in insertion
  order, because \<open>sorted\<close> is applied to \<open>dict.keys()\<close> and is stable.
\<close>

datatype py_error = KeyError

type_synonym py_dict = "(string \<times> string) list"

text \<open>\<open>d.get(k)\<close>\<close>

definition dict_get :: "py_dict \<Rightarrow> string \<Rightarrow> string option" where
  "dict_get d k = map_of d k"

text \<open>\<open>d.get(k, default)\<close>\<close>

definition dict_get_default :: "py_dict \<Rightarrow> string \<Rightarrow> string \<Rightarrow> string" where
  "dict_get_default d k dflt = (case map_of d k of None \<Rightarrow> dflt | Some v \<Rightarrow> v)"

text \<open>\<open>d[k]\<close>, which raises \<open>KeyError\<close> on a missing key\<close>

definition dict_getitem :: "py_dict \<Rightarrow> string \<Rightarrow> py_error + string" where
  "dict_getitem d k = (case map_of d k of None \<Rightarrow> Inl KeyError | Some v \<Rightarrow> Inr v)"

text \<open>\<open>d[k] = v\<close>: an existing key keeps its place, a new key goes to the end\<close>

fun dict_setitem :: "py_dict \<Rightarrow> string \<Rightarrow> string \<Rightarrow> py_dict" where
  "dict_setitem [] k v = [(k, v)]"
| "dict_setitem ((k', v') # d) k v =
     (if k' = k then (k, v) # d else (k', v') # dict_setitem d k v)"

text \<open>\<open>k in d\<close>\<close>

definition dict_contains :: "py_dict \<Rightarrow> string \<Rightarrow> bool" where
  "dict_contains d k = (map_of d k \<noteq> None)"

text \<open>\<open>sep.join(xs)\<close>\<close>

fun str_join :: "string \<Rightarrow> string list \<Rightarrow> string" where
  "str_join sep [] = []"
| "str_join sep [x] = x"
| "str_join sep (x # y # ys) = x @ sep @ str_join sep (y # ys)"

text \<open>\<open>s.count(c)\<close> for a one-character \<open>c\<close>\<close>

definition str_count :: "string \<Rightarrow> char \<Rightarrow> nat" where
  "str_count s c = length (filter (\<lambda>x. x = c) s)"

section \<open>Documentation composer: \<open>_build_hierarchical_documentation\<close>\<close>

text \<open>\<open>sorted(documentation_parts.keys(), key=lambda x: x.count("/"))\<close>\<close>

definition paths_by_depth :: "py_dict \<Rightarrow> string list" where
  "paths_by_depth documentation_parts =
     sort_key (\<lambda>x. str_count x CHR ''/'') (map fst documentation_parts)"

text \<open>\<open>paths_by_depth[-1]\<close>, taken only when the list is not empty\<close>

definition deepest_path :: "py_dict \<Rightarrow> string" where
  "deepest_path documentation_parts = last (paths_by_depth documentation_parts)"

text \<open>\<open>paths_by_depth[:-1]\<close>\<close>

definition remaining_paths :: "py_dict \<Rightarrow> string list" where
  "remaining_paths documentation_parts = butlast (paths_by_depth documentation_parts)"

text \<open>The block appended for one context path whose documentation is not empty.\<close>

definition context_block :: "string \<Rightarrow> string \<Rightarrow> string" where
  "context_block path_key doc =
     (let depth = str_count path_key CHR ''/'' + 1 in
      if depth + 2 \<le> 6 then
        (let header_level = depth + 2;
             header = replicate header_level CHR ''#''
         in header @ '' '' @ path_key @ ''\<newline>'' @ doc)
      else
        (let indent_level = depth + 2 - 6;
             indent = concat (replicate indent_level ''  '')
         in ''###### '' @ indent @ ''**'' @ path_key @ ''**\<newline>'' @ indent @ doc))"

text \<open>
  The loop \<open>for path_key in remaining_paths\<close>; \<open>doc_sections\<close> is the list built so far.
\<close>

fun context_loop :: "py_dict \<Rightarrow> string list \<Rightarrow> string list \<Rightarrow> py_error + string list" where
  "context_loop documentation_parts [] doc_sections = Inr doc_sections"
| "context_loop documentation_parts (path_key # rest) doc_sections =
     (case dict_getitem documentation_parts path_key of
        Inl e \<Rightarrow> Inl e
      | Inr doc \<Rightarrow>
          if doc \<noteq> [] then
            context_loop documentation_parts rest (doc_sections @ [context_block path_key doc])
          else context_loop documentation_parts rest doc_sections)"

text \<open>The list \<open>doc_sections\<close> as it stands before the final join.\<close>

definition doc_sections :: "py_dict \<Rightarrow> py_error + string list" where
  "doc_sections documentation_parts =
     (let leaf_doc = dict_get_default documentation_parts (deepest_path documentation_parts) '''';
          sections0 = (if leaf_doc \<noteq> []
                       then [''**'' @ deepest_path documentation_parts @ ''**\<newline>'' @ leaf_doc]
                       else [])
      in if remaining_paths documentation_parts \<noteq> [] then
           context_loop documentation_parts (remaining_paths documentation_parts)
             (sections0 @ [''## Hierarchical Context''])
         else Inr sections0)"

definition build_hierarchical_documentation :: "py_dict \<Rightarrow> py_error + string" where
  "build_hierarchical_documentation documentation_parts =
     (if documentation_parts = [] then Inr []
      else if paths_by_depth documentation_parts = [] then Inr []
      else (case doc_sections documentation_parts of
              Inl e \<Rightarrow> Inl e
            | Inr secs \<Rightarrow> Inr (str_join ''\<newline>\<newline>'' secs)))"

section \<open>The schema tree (xml.etree.ElementTree)\<close>

text \<open>
  An element has a tag, attributes and children. The program compares elements by
  identity (\<open>walker != ids_node\<close>, the keys of \<open>parent_map\<close>), so an element object of
  the parsed tree is named by its position: the child indices leading to it from the root.
\<close>

datatype element = Element (tag: string) (attrib: "(string \<times> string) list") (children: "element list")

type_synonym node = "nat list"

fun subelement :: "element \<Rightarrow> node \<Rightarrow> element option" where
  "subelement e [] = Some e"
| "subelement e (i # p) =
     (if i < length (children e) then subelement (children e ! i) p else None)"

text \<open>\<open>node.get(key)\<close> for the element object at position \<open>n\<close> of the tree\<close>

definition node_get :: "element \<Rightarrow> node \<Rightarrow> string \<Rightarrow> string option" where
  "node_get root_node n key = (case subelement root_node n of None \<Rightarrow> None | Some e \<Rightarrow> map_of (attrib e) key)"

text \<open>\<open>node.get(key, default)\<close>\<close>

definition node_get_default :: "element \<Rightarrow> node \<Rightarrow> string \<Rightarrow> string \<Rightarrow> string" where
  "node_get_default root_node n key dflt = (case node_get root_node n key of None \<Rightarrow> dflt | Some v \<Rightarrow> v)"

text \<open>
  All proper descendants of the element \<open>e\<close> standing at position \<open>p\<close>, in document
  order: what the path prefix \<open>.//\<close> ranges over.
\<close>

fun descendants :: "element \<Rightarrow> node \<Rightarrow> node list"
  and descendants_from :: "element list \<Rightarrow> node \<Rightarrow> nat \<Rightarrow> node list" where
  "descendants (Element t a cs) p = descendants_from cs p 0"
| "descendants_from [] p i = []"
| "descendants_from (c # cs) p i =
     (p @ [i]) # descendants c (p @ [i]) @ descendants_from cs p (Suc i)"

text \<open>\<open>n.findall(".//*[@name]")\<close> and \<open>n.findall(".//IDS[@name]")\<close>\<close>

definition findall_named :: "element \<Rightarrow> node \<Rightarrow> node list" where
  "findall_named root_node n =
     (case subelement root_node n of
        None \<Rightarrow> []
      | Some e \<Rightarrow> filter (\<lambda>d. node_get root_node d ''name'' \<noteq> None) (descendants e n))"

definition findall_ids :: "element \<Rightarrow> node list" where
  "findall_ids root_node =
     filter (\<lambda>d. (case subelement root_node d of None \<Rightarrow> False | Some e \<Rightarrow> tag e = ''IDS''))
       (findall_named root_node [])"

text \<open>\<open>parent_map = {c: p for p in root_node.iter() for c in p}\<close>, read with \<open>.get\<close>\<close>

definition parent_map_get :: "element \<Rightarrow> node \<Rightarrow> node option" where
  "parent_map_get root_node n =
     (if n \<noteq> [] \<and> subelement root_node n \<noteq> None then Some (butlast n) else None)"

section \<open>Building one descendant record: \<open>_build_element_entry\<close>\<close>

text \<open>
  The value of an \<open>Optional[str]\<close> when it is true, as in \<open>if walker_name:\<close>;
  \<open>None\<close> and the empty string are false.
\<close>

fun if_truthy :: "string option \<Rightarrow> string option" where
  "if_truthy None = None"
| "if_truthy (Some s) = (if s = [] then None else Some s)"

text \<open>
  One round of the loop \<open>while walker is not None and walker != ids_node\<close>. The loop's
  state is \<open>(path_parts, documentation_parts, units)\<close>.
\<close>

type_synonym walk_state = "string list \<times> py_dict \<times> string"

fun walk_step :: "element \<Rightarrow> string \<Rightarrow> node \<Rightarrow> walk_state \<Rightarrow> walk_state" where
  "walk_step root_node ids_name walker (path_parts, documentation_parts, units) =
     (let (path_parts', documentation_parts') =
            (case if_truthy (node_get root_node walker ''name'') of
               None \<Rightarrow> (path_parts, documentation_parts)
             | Some walker_name \<Rightarrow>
                 (case if_truthy (node_get root_node walker ''documentation'') of
                    None \<Rightarrow> (walker_name # path_parts, documentation_parts)
                  | Some walker_doc \<Rightarrow>
                      (walker_name # path_parts,
                       dict_setitem documentation_parts
                         (str_join ''/'' ([ids_name] @ (walker_name # path_parts))) walker_doc)));
          units' =
            (case parent_map_get root_node walker of
               None \<Rightarrow> units
             | Some parent_walker \<Rightarrow>
                 if units = ''as_parent'' then
                   (case if_truthy (node_get root_node parent_walker ''units'') of
                      None \<Rightarrow> units
                    | Some parent_units \<Rightarrow> parent_units)
                 else units)
      in (path_parts', documentation_parts', units'))"

function walk_up :: "element \<Rightarrow> node \<Rightarrow> string \<Rightarrow> node option \<Rightarrow> walk_state \<Rightarrow> walk_state" where
  "walk_up root_node ids_node ids_name None st = st"
| "walk_up root_node ids_node ids_name (Some walker) st =
     (if walker \<noteq> ids_node then
        walk_up root_node ids_node ids_name (parent_map_get root_node walker)
          (walk_step root_node ids_name walker st)
      else st)"
  by pat_completeness auto
termination
  by (relation "measure (\<lambda>(root_node, ids_node, ids_name, walker, st).
        case walker of None \<Rightarrow> 0 | Some w \<Rightarrow> Suc (length w))")
     (auto simp: parent_map_get_def split: if_splits)

text \<open>
  A document record is a \<open>Dict[str, Any]\<close> whose values are strings here; the batcher
  tests it for the presence of keys, so it stays a dictionary.
\<close>

definition make_entry :: "string \<Rightarrow> string \<Rightarrow> string \<Rightarrow> string \<Rightarrow> py_dict" where
  "make_entry p d u n =
     [(''path'', p), (''documentation'', d), (''units'', u), (''ids_name'', n)]"

definition build_element_entry ::
    "element \<Rightarrow> node \<Rightarrow> node \<Rightarrow> string \<Rightarrow> py_error + py_dict option" where
  "build_element_entry root_node elem ids_node ids_name =
     (case walk_up root_node ids_node ids_name (Some elem)
             ([], [], node_get_default root_node elem ''units'' '''') of
        (path_parts, documentation_parts0, units) \<Rightarrow>
          if path_parts = [] then Inr None
          else
            (let documentation_parts =
                   (case if_truthy (node_get root_node ids_node ''documentation'') of
                      None \<Rightarrow> documentation_parts0
                    | Some ids_doc \<Rightarrow> dict_setitem documentation_parts0 ids_name ids_doc);
                 full_path = ids_name @ ''/'' @ str_join ''/'' path_parts
             in (case build_hierarchical_documentation documentation_parts of
                   Inl e \<Rightarrow> Inl e
                 | Inr combined_documentation \<Rightarrow>
                     Inr (Some (make_entry full_path
                       (if combined_documentation \<noteq> [] then combined_documentation
                        else node_get_default root_node elem ''documentation'' '''')
                       (if units \<noteq> [] then units else ''none'')
                       ids_name)))))"

section \<open>The extractor: \<open>_get_ids_set\<close> and \<open>_get_document\<close>\<close>

definition get_ids_set :: "string set option \<Rightarrow> element \<Rightarrow> string set" where
  "get_ids_set ids_set root_node =
     (case ids_set of
        Some s \<Rightarrow> s
      | None \<Rightarrow>
          set (concat (map (\<lambda>elem. case if_truthy (node_get root_node elem ''name'') of
                                   None \<Rightarrow> [] | Some name \<Rightarrow> [name])
                           (findall_ids root_node))))"

text \<open>
  The generator is modelled by the list of what it yields. An exception raised while a
  record is composed leaves the generator; it is the result \<open>Inl\<close>. Logging, the
  count \<open>_total_elements\<close> and the progress tracker act on nothing the generator
  yields and are left out.
  The inner loop \<open>for elem in ids_node.findall(".//*[@name]")\<close>:
\<close>

fun element_entries :: "element \<Rightarrow> node \<Rightarrow> string \<Rightarrow> node list \<Rightarrow> py_error + py_dict list" where
  "element_entries root_node ids_node ids_name [] = Inr []"
| "element_entries root_node ids_node ids_name (elem # elems) =
     (case build_element_entry root_node elem ids_node ids_name of
        Inl e \<Rightarrow> Inl e
      | Inr entry \<Rightarrow>
          (case element_entries root_node ids_node ids_name elems of
             Inl e \<Rightarrow> Inl e
           | Inr rest \<Rightarrow> Inr ((case entry of None \<Rightarrow> [] | Some d \<Rightarrow> [d]) @ rest)))"

text \<open>The outer loop \<open>for ids_node in ids_nodes\<close>:\<close>

fun ids_entries :: "element \<Rightarrow> node list \<Rightarrow> py_error + py_dict list" where
  "ids_entries root_node [] = Inr []"
| "ids_entries root_node (ids_node # ids_nodes) =
     (case if_truthy (node_get root_node ids_node ''name'') of
        None \<Rightarrow> ids_entries root_node ids_nodes
      | Some ids_name \<Rightarrow>
          (case element_entries root_node ids_node ids_name (findall_named root_node ids_node) of
             Inl e \<Rightarrow> Inl e
           | Inr entries \<Rightarrow>
               (case ids_entries root_node ids_nodes of
                  Inl e \<Rightarrow> Inl e
                | Inr rest \<Rightarrow>
                    Inr (make_entry ids_name
                           (node_get_default root_node ids_node ''documentation'' '''')
                           (node_get_default root_node ids_node ''units'' ''none'')
                           ids_name # entries @ rest))))"

definition get_document :: "string set option \<Rightarrow> element \<Rightarrow> py_error + py_dict list" where
  "get_document ids_set root_node =
     (let ids_to_process = get_ids_set ids_set root_node;
          ids_nodes = filter (\<lambda>n. case node_get root_node n ''name'' of
                                     None \<Rightarrow> False | Some name \<Rightarrow> name \<in> ids_to_process)
                        (findall_ids root_node)
      in if ids_nodes = [] then Inr [] else ids_entries root_node ids_nodes)"

section \<open>The batcher: \<open>_get_document_batch\<close>\<close>

text \<open>
  The loop over the document stream. Its state is the buffer \<open>documents_batch\<close> and the
  set \<open>processed_paths\<close>; the result is the list of batches it yields. \<open>batch_size\<close> is
  a Python \<open>int\<close>.
\<close>

fun batch_loop :: "int \<Rightarrow> py_dict list \<Rightarrow> py_dict list \<Rightarrow> string set \<Rightarrow> py_dict list list" where
  "batch_loop batch_size [] documents_batch processed_paths =
     (if documents_batch \<noteq> [] then [documents_batch] else [])"
| "batch_loop batch_size (entry_dict # stream) documents_batch processed_paths =
     (case if_truthy (dict_get entry_dict ''path'') of
        None \<Rightarrow> batch_loop batch_size stream documents_batch processed_paths
      | Some path \<Rightarrow>
          if path \<in> processed_paths then
            batch_loop batch_size stream documents_batch processed_paths
          else if list_all (\<lambda>key. dict_contains entry_dict key)
                    [''path'', ''documentation'', ''ids_name''] then
            (if int (length (documents_batch @ [entry_dict])) \<ge> batch_size then
               (documents_batch @ [entry_dict])
                 # batch_loop batch_size stream [] (insert path processed_paths)
             else batch_loop batch_size stream (documents_batch @ [entry_dict])
                    (insert path processed_paths))
          else batch_loop batch_size stream documents_batch processed_paths)"

definition document_batches :: "int \<Rightarrow> py_dict list \<Rightarrow> py_dict list list" where
  "document_batches batch_size stream = batch_loop batch_size stream [] {}"

definition get_document_batch ::
    "string set option \<Rightarrow> element \<Rightarrow> int \<Rightarrow> py_error + py_dict list list" where
  "get_document_batch ids_set root_node batch_size =
     (case get_document ids_set root_node of
        Inl e \<Rightarrow> Inl e
      | Inr stream \<Rightarrow> Inr (document_batches batch_size stream))"

section \<open>The index identity: \<open>_get_index_name\<close>\<close>

text \<open>
  \<open>hashlib.md5(s.encode("utf-8")).hexdigest()\<close> belongs to the Python library; it is the
  parameter \<open>md5_hexdigest\<close>. \<open>dd_version\<close> stands for \<open>self.dd_version.public\<close> and
  \<open>index_prefix\<close> for the abstract property of that name. \<open>sorted(list(s))\<close> of a set of
  strings is \<open>sorted_list_of_set\<close> in the lexicographic order of the characters.
\<close>

definition get_index_name ::
    "(string \<Rightarrow> string) \<Rightarrow> string \<Rightarrow> string \<Rightarrow> string set option \<Rightarrow> string" where
  "get_index_name md5_hexdigest index_prefix dd_version ids_set =
     (let indexname = index_prefix @ ''_'' @ dd_version in
      case ids_set of
        None \<Rightarrow> indexname
      | Some s \<Rightarrow>
          if card s > 0 then
            (let ids_str = str_join '','' (sorted_list_of_set s);
                 hash_suffix = take 8 (md5_hexdigest ids_str)
             in indexname @ ''-'' @ hash_suffix)
          else indexname)"

section \<open>The composer never raises\<close>

text \<open>
  What the context loop appends for the paths \<open>ks\<close>, and what the leaf contributes,
  written without the error branch.
\<close>

definition context_blocks :: "py_dict \<Rightarrow> string list \<Rightarrow> string list" where
  "context_blocks documentation_parts ks =
     map (\<lambda>k. context_block k (dict_get_default documentation_parts k []))
       (filter (\<lambda>k. dict_get_default documentation_parts k [] \<noteq> []) ks)"

definition leaf_section :: "py_dict \<Rightarrow> string list" where
  "leaf_section documentation_parts =
     (let leaf_doc = dict_get_default documentation_parts (deepest_path documentation_parts) []
      in if leaf_doc \<noteq> []
         then [''**'' @ deepest_path documentation_parts @ ''**\<newline>'' @ leaf_doc]
         else [])"

definition all_sections :: "py_dict \<Rightarrow> string list" where
  "all_sections documentation_parts =
     leaf_section documentation_parts @
       (if remaining_paths documentation_parts \<noteq> []
        then ''## Hierarchical Context''
               # context_blocks documentation_parts (remaining_paths documentation_parts)
        else [])"

lemma map_of_key_defined:
  assumes "k \<in> fst ` set parts"
  shows "\<exists>v. map_of parts k = Some v"
proof (cases "map_of parts k")
  case None
  then have "k \<notin> fst ` set parts" by (simp add: map_of_eq_None_iff)
  with assms show ?thesis by simp
next
  case (Some v)
  then show ?thesis by simp
qed

lemma context_blocks_Nil: "context_blocks parts [] = []"
  by (simp add: context_blocks_def)

lemma context_blocks_Cons:
  "context_blocks parts (k # ks) =
     (if dict_get_default parts k [] \<noteq> []
      then context_block k (dict_get_default parts k []) # context_blocks parts ks
      else context_blocks parts ks)"
  by (simp add: context_blocks_def)

lemma context_loop_total:
  "set ks \<subseteq> fst ` set parts \<Longrightarrow>
   context_loop parts ks secs = Inr (secs @ context_blocks parts ks)"
proof (induction ks arbitrary: secs)
  case Nil
  show ?case by (simp add: context_blocks_Nil)
next
  case (Cons k ks)
  from Cons.prems have "k \<in> fst ` set parts" by simp
  then have "\<exists>v. map_of parts k = Some v" by (rule map_of_key_defined)
  then obtain v where v: "map_of parts k = Some v" ..
  then have g: "dict_getitem parts k = Inr v" and d: "dict_get_default parts k [] = v"
    by (simp_all add: dict_getitem_def dict_get_default_def)
  from Cons.prems have sub: "set ks \<subseteq> fst ` set parts" by simp
  show ?case
  proof (cases "v = []")
    case True
    then show ?thesis
      by (simp add: g d context_blocks_Cons Cons.IH [OF sub])
  next
    case False
    then show ?thesis
      by (simp add: g d context_blocks_Cons Cons.IH [OF sub])
  qed
qed

lemma set_paths_by_depth: "set (paths_by_depth parts) = fst ` set parts"
  by (simp add: paths_by_depth_def)

lemma paths_by_depth_Nil: "paths_by_depth parts = [] \<longleftrightarrow> parts = []"
  using set_paths_by_depth [of parts] by (metis image_is_empty set_empty)

lemma remaining_paths_keys: "set (remaining_paths parts) \<subseteq> fst ` set parts"
  unfolding remaining_paths_def using set_paths_by_depth [of parts]
  by (auto dest: in_set_butlastD)

lemma doc_sections_total: "doc_sections parts = Inr (all_sections parts)"
  by (simp add: doc_sections_def leaf_section_def all_sections_def Let_def
        context_loop_total [OF remaining_paths_keys])

lemma build_hierarchical_documentation_total:
  "build_hierarchical_documentation parts =
     Inr (if parts = [] then [] else str_join ''\<newline>\<newline>'' (all_sections parts))"
  by (simp add: build_hierarchical_documentation_def doc_sections_total paths_by_depth_Nil)

section \<open>The extractor never raises, and the shape of its records\<close>

lemma build_element_entry_cases:
  "build_element_entry root_node elem ids_node ids_name = Inr None \<or>
   (\<exists>path_parts d u. build_element_entry root_node elem ids_node ids_name =
      Inr (Some (make_entry (ids_name @ ''/'' @ str_join ''/'' path_parts) d u ids_name)))"
proof -
  obtain pp dp u where w: "walk_up root_node ids_node ids_name (Some elem)
             ([], [], node_get_default root_node elem ''units'' []) = (pp, dp, u)"
    by (metis prod_cases3)
  show ?thesis
    unfolding build_element_entry_def w
    by (simp add: Let_def build_hierarchical_documentation_total) blast
qed

text \<open>A record whose path is its structure's name, or that name, a separator and more.\<close>

definition entry_under_ids :: "py_dict \<Rightarrow> bool" where
  "entry_under_ids entry =
     (\<exists>p d u n. entry = make_entry p d u n \<and> (p = n \<or> (\<exists>rest. p = n @ ''/'' @ rest)))"

lemma element_entries_shape:
  "\<exists>docs. element_entries root_node ids_node ids_name elems = Inr docs \<and>
     (\<forall>entry \<in> set docs. entry_under_ids entry)"
proof (induction elems)
  case Nil
  show ?case by simp
next
  case (Cons elem elems)
  then obtain rest where rest: "element_entries root_node ids_node ids_name elems = Inr rest"
    and ok: "\<forall>entry \<in> set rest. entry_under_ids entry"
    by blast
  from build_element_entry_cases [of root_node elem ids_node ids_name]
  show ?case
  proof
    assume "build_element_entry root_node elem ids_node ids_name = Inr None"
    with rest ok show ?thesis by simp
  next
    assume "\<exists>path_parts d u. build_element_entry root_node elem ids_node ids_name =
      Inr (Some (make_entry (ids_name @ ''/'' @ str_join ''/'' path_parts) d u ids_name))"
    then obtain pp d u where b: "build_element_entry root_node elem ids_node ids_name =
      Inr (Some (make_entry (ids_name @ ''/'' @ str_join ''/'' pp) d u ids_name))" by blast
    have "entry_under_ids (make_entry (ids_name @ ''/'' @ str_join ''/'' pp) d u ids_name)"
      unfolding entry_under_ids_def by blast
    with b rest ok show ?thesis by simp
  qed
qed

lemma ids_entries_shape:
  "\<exists>docs. ids_entries root_node ids_nodes = Inr docs \<and>
     (\<forall>entry \<in> set docs. entry_under_ids entry)"
proof (induction ids_nodes)
  case Nil
  show ?case by simp
next
  case (Cons ids_node ids_nodes)
  then obtain rest where rest: "ids_entries root_node ids_nodes = Inr rest"
    and ok: "\<forall>entry \<in> set rest. entry_under_ids entry"
    by blast
  show ?case
  proof (cases "if_truthy (node_get root_node ids_node ''name'')")
    case None
    with rest ok show ?thesis by simp
  next
    case (Some ids_name)
    from element_entries_shape [of root_node ids_node ids_name "findall_named root_node ids_node"]
    obtain es where es: "element_entries root_node ids_node ids_name
                            (findall_named root_node ids_node) = Inr es"
      and eok: "\<forall>entry \<in> set es. entry_under_ids entry"
      by blast
    have "entry_under_ids (make_entry ids_name d u ids_name)" for d u
      unfolding entry_under_ids_def by blast
    with Some rest es ok eok show ?thesis by auto
  qed
qed

lemma get_document_shape:
  "\<exists>docs. get_document ids_set root_node = Inr docs \<and>
     (\<forall>entry \<in> set docs. entry_under_ids entry)"
proof (cases "filter (\<lambda>n. case node_get root_node n ''name'' of
                             None \<Rightarrow> False
                           | Some name \<Rightarrow> name \<in> get_ids_set ids_set root_node)
                (findall_ids root_node) = []")
  case True
  then show ?thesis by (simp add: get_document_def)
next
  case False
  then show ?thesis
    using ids_entries_shape [of root_node]
    unfolding get_document_def Let_def by (simp only: if_False)
qed

lemma get_document_batch_total:
  "\<exists>docs. get_document ids_set root_node = Inr docs \<and>
     get_document_batch ids_set root_node batch_size = Inr (document_batches batch_size docs)"
proof -
  from get_document_shape [of ids_set root_node]
  obtain docs where "get_document ids_set root_node = Inr docs" by blast
  then show ?thesis by (simp add: get_document_batch_def)
qed

section \<open>Claims about the extractor\<close>

text \<open>
  The schema of the end-to-end scenario: one top-level structure \<open>X\<close> documented
  "root doc", its child \<open>Y\<close> documented "child doc" with units "m", and the grandchild
  \<open>Z\<close> without documentation and with units "as_parent".
\<close>

definition schema_xyz :: element where
  "schema_xyz =
     Element ''IDSs'' []
       [Element ''IDS'' [(''name'', ''X''), (''documentation'', ''root doc'')]
          [Element ''field''
             [(''name'', ''Y''), (''documentation'', ''child doc''), (''units'', ''m'')]
             [Element ''field'' [(''name'', ''Z''), (''units'', ''as_parent'')] []]]]"

text \<open>
  A schema where the marker has nothing to inherit from: the top-level structure \<open>X\<close>
  carries no units and its child \<open>Y\<close> has units "as_parent".
\<close>

definition schema_marker :: element where
  "schema_marker =
     Element ''IDSs'' []
       [Element ''IDS'' [(''name'', ''X'')]
          [Element ''field'' [(''name'', ''Y''), (''units'', ''as_parent'')] []]]"

lemma get_document_schema_xyz:
  "get_document None schema_xyz = Inr
     [make_entry ''X'' ''root doc'' ''none'' ''X'',
      make_entry ''X/Y''
        ''**X/Y**\<newline>child doc\<newline>\<newline>## Hierarchical Context\<newline>\<newline>### X\<newline>root doc''
        ''m'' ''X'',
      make_entry ''X/Y/Z''
        ''**X/Y/Z**\<newline>child doc\<newline>\<newline>## Hierarchical Context\<newline>\<newline>### X\<newline>root doc''
        ''m'' ''X'']"
  by code_simp

text \<open>
  C1 (code defect). The claim: no record ever carries the units "as_parent". On
  \<open>schema_marker\<close> the walk from \<open>Y\<close> looks at the parent \<open>X\<close>, finds no units there
  and leaves the marker in place; the fallback \<open>units or "none"\<close> only replaces the empty
  string. The record of \<open>X/Y\<close> therefore has units "as_parent".
\<close>

theorem C1_marker_survives:
  "get_document None schema_marker = Inr
     [make_entry ''X'' '''' ''none'' ''X'',
      make_entry ''X/Y'' '''' ''as_parent'' ''X'']"
  by code_simp

text \<open>
  C8 (code defect). The end-to-end scenario yields three records with the paths, units and
  first two documentation strings the claim gives. The third differs: while the walk from
  \<open>Z\<close> stands at \<open>Y\<close>, \<open>path_parts\<close> already holds \<open>Z\<close>, so the documentation of \<open>Y\<close> is
  stored under the key \<open>X/Y/Z\<close>. The composer then takes "child doc" for the leaf text of
  \<open>X/Y/Z\<close>: the leaf line is present, and "child doc" is not under the context section.
\<close>

theorem C8_scenario_records:
  "get_document (Some {''X''}) schema_xyz = Inr
     [[(''path'', ''X''), (''documentation'', ''root doc''),
       (''units'', ''none''), (''ids_name'', ''X'')],
      [(''path'', ''X/Y''),
       (''documentation'',
          ''**X/Y**\<newline>child doc\<newline>\<newline>## Hierarchical Context\<newline>\<newline>### X\<newline>root doc''),
       (''units'', ''m''), (''ids_name'', ''X'')],
      [(''path'', ''X/Y/Z''),
       (''documentation'',
          ''**X/Y/Z**\<newline>child doc\<newline>\<newline>## Hierarchical Context\<newline>\<newline>### X\<newline>root doc''),
       (''units'', ''m''), (''ids_name'', ''X'')]]"
  by code_simp

text \<open>
  A schema with two top-level structures named \<open>a\<close> and \<open>a/b\<close>: the child \<open>b\<close> of
  \<open>a\<close> has the path \<open>a/b\<close>, which is also the path of the structure \<open>a/b\<close> itself.
\<close>

definition schema_slash :: element where
  "schema_slash =
     Element ''IDSs'' []
       [Element ''IDS'' [(''name'', ''a'')]
          [Element ''field'' [(''name'', ''b'')]
             [Element ''field'' [(''name'', ''c'')] []]],
        Element ''IDS'' [(''name'', ''a/b'')]
          [Element ''field'' [(''name'', ''c'')] []]]"

text \<open>
  C10 as stated fails in its last clause: on \<open>schema_slash\<close> the second record has
  \<open>ids_name\<close> \<open>a\<close> and the path \<open>a/b\<close>, the name and root path of the other top-level
  structure; the third has \<open>ids_name\<close> \<open>a\<close> and the path \<open>a/b/c\<close>, which starts with
  \<open>a/b\<close> and the separator. Both paths are yielded again under \<open>ids_name\<close> \<open>a/b\<close>.
\<close>

theorem C10_other_structure_counterexample:
  "get_document None schema_slash = Inr
     [make_entry ''a'' '''' ''none'' ''a'',
      make_entry ''a/b'' '''' ''none'' ''a'',
      make_entry ''a/b/c'' '''' ''none'' ''a'',
      make_entry ''a/b'' '''' ''none'' ''a/b'',
      make_entry ''a/b/c'' '''' ''none'' ''a/b'']
   \<and> dict_get (make_entry ''a/b'' '''' ''none'' ''a'') ''path'' = Some ''a/b''
   \<and> dict_get (make_entry ''a/b'' '''' ''none'' ''a'') ''ids_name'' = Some ''a''
   \<and> node_get schema_slash [1] ''name'' = Some ''a/b''
   \<and> ''a/b'' \<noteq> ''a''"
  by code_simp

text \<open>
  C10, amended. The extractor always returns, and every record it yields has a \<open>path\<close>
  that is its \<open>ids_name\<close> or starts with its \<open>ids_name\<close> followed by the separator. When
  the \<open>ids_name\<close> holds no separator, the first segment of the path is that name, and the
  path neither equals nor starts with (name and separator) any other name that holds no
  separator: among structure names free of \<open>/\<close>, a path lies under its own structure only.
\<close>

theorem C10_path_under_ids_name:
  "\<exists>docs. get_document ids_set root_node = Inr docs \<and>
     (\<forall>entry \<in> set docs.
        \<exists>p n. dict_get entry ''path'' = Some p \<and> dict_get entry ''ids_name'' = Some n \<and>
          (p = n \<or> (\<exists>rest. p = n @ ''/'' @ rest)) \<and>
          (CHR ''/'' \<notin> set n \<longrightarrow> takeWhile (\<lambda>c. c \<noteq> CHR ''/'') p = n) \<and>
          (\<forall>m. CHR ''/'' \<notin> set n \<and> CHR ''/'' \<notin> set m
                 \<and> (p = m \<or> (\<exists>rest. p = m @ ''/'' @ rest)) \<longrightarrow> m = n))"
proof -
  have first_segment: "takeWhile (\<lambda>c. c \<noteq> CHR ''/'') p = m"
    if "CHR ''/'' \<notin> set m" and "p = m \<or> (\<exists>rest. p = m @ ''/'' @ rest)" for p m :: string
  proof -
    from that(2) show ?thesis
    proof
      assume "p = m"
      with that(1) show ?thesis by (auto simp: takeWhile_eq_all_conv)
    next
      assume "\<exists>rest. p = m @ ''/'' @ rest"
      then obtain rest where "p = m @ ''/'' @ rest" ..
      moreover from that(1) have "takeWhile (\<lambda>c. c \<noteq> CHR ''/'') (m @ ''/'' @ rest)
            = m @ takeWhile (\<lambda>c. c \<noteq> CHR ''/'') (''/'' @ rest)"
        by (intro takeWhile_append2) auto
      ultimately show ?thesis by simp
    qed
  qed
  from get_document_shape [of ids_set root_node]
  obtain docs where d: "get_document ids_set root_node = Inr docs"
    and ok: "\<forall>entry \<in> set docs. entry_under_ids entry"
    by blast
  have each: "\<exists>p n. dict_get entry ''path'' = Some p \<and> dict_get entry ''ids_name'' = Some n \<and>
          (p = n \<or> (\<exists>rest. p = n @ ''/'' @ rest)) \<and>
          (CHR ''/'' \<notin> set n \<longrightarrow> takeWhile (\<lambda>c. c \<noteq> CHR ''/'') p = n) \<and>
          (\<forall>m. CHR ''/'' \<notin> set n \<and> CHR ''/'' \<notin> set m
                 \<and> (p = m \<or> (\<exists>rest. p = m @ ''/'' @ rest)) \<longrightarrow> m = n)"
    if "entry \<in> set docs" for entry
  proof -
    from ok that obtain p dd u n where e: "entry = make_entry p dd u n"
      and pn: "p = n \<or> (\<exists>rest. p = n @ ''/'' @ rest)"
      unfolding entry_under_ids_def by blast
    have g: "dict_get entry ''path'' = Some p" "dict_get entry ''ids_name'' = Some n"
      by (simp_all add: e make_entry_def dict_get_def)
    have own: "CHR ''/'' \<notin> set n \<longrightarrow> takeWhile (\<lambda>c. c \<noteq> CHR ''/'') p = n"
    proof
      assume "CHR ''/'' \<notin> set n"
      from first_segment [OF this pn] show "takeWhile (\<lambda>c. c \<noteq> CHR ''/'') p = n" .
    qed
    have other: "\<forall>m. CHR ''/'' \<notin> set n \<and> CHR ''/'' \<notin> set m
                 \<and> (p = m \<or> (\<exists>rest. p = m @ ''/'' @ rest)) \<longrightarrow> m = n"
    proof (intro allI impI)
      fix m
      assume a: "CHR ''/'' \<notin> set n \<and> CHR ''/'' \<notin> set m
                 \<and> (p = m \<or> (\<exists>rest. p = m @ ''/'' @ rest))"
      note fn = a [THEN conjunct1]
      note fm = a [THEN conjunct2, THEN conjunct1]
      note pm = a [THEN conjunct2, THEN conjunct2]
      from first_segment [OF fm pm] first_segment [OF fn pn] show "m = n" by simp
    qed
    show ?thesis
      by (rule exI [of _ p], rule exI [of _ n]) (intro conjI g pn own other)
  qed
  show ?thesis
    by (rule exI [of _ docs], rule conjI [OF d], rule ballI, rule each)
qed

theorem C10_path_under_ids_name_witness:
  "get_document None schema_xyz = Inr
     [make_entry ''X'' ''root doc'' ''none'' ''X'',
      make_entry ''X/Y''
        ''**X/Y**\<newline>child doc\<newline>\<newline>## Hierarchical Context\<newline>\<newline>### X\<newline>root doc''
        ''m'' ''X'',
      make_entry ''X/Y/Z''
        ''**X/Y/Z**\<newline>child doc\<newline>\<newline>## Hierarchical Context\<newline>\<newline>### X\<newline>root doc''
        ''m'' ''X'']
   \<and> dict_get (make_entry ''X/Y/Z''
        ''**X/Y/Z**\<newline>child doc\<newline>\<newline>## Hierarchical Context\<newline>\<newline>### X\<newline>root doc''
        ''m'' ''X'') ''path'' = Some ''X/Y/Z''
   \<and> dict_get (make_entry ''X/Y/Z''
        ''**X/Y/Z**\<newline>child doc\<newline>\<newline>## Hierarchical Context\<newline>\<newline>### X\<newline>root doc''
        ''m'' ''X'') ''ids_name'' = Some ''X''
   \<and> ''X/Y/Z'' = ''X'' @ ''/'' @ ''Y/Z''
   \<and> CHR ''/'' \<notin> set ''X''
   \<and> takeWhile (\<lambda>c. c \<noteq> CHR ''/'') ''X/Y/Z'' = ''X''"
  using C10_path_under_ids_name [of None schema_xyz] get_document_schema_xyz
  by (simp add: make_entry_def dict_get_def)

section \<open>The batcher: which records it keeps\<close>

definition has_required_keys :: "py_dict \<Rightarrow> bool" where
  "has_required_keys e =
     (dict_contains e ''path'' \<and> dict_contains e ''documentation'' \<and> dict_contains e ''ids_name'')"

definition entry_path :: "py_dict \<Rightarrow> string" where
  "entry_path e = dict_get_default e ''path'' []"

text \<open>A record the batcher can keep: its path is a non-empty string and no key is missing.\<close>

definition accepted :: "py_dict \<Rightarrow> bool" where
  "accepted e = (entry_path e \<noteq> [] \<and> has_required_keys e)"

text \<open>
  Deduplication by path as the specification words it: a record stays, and every later
  record with the same path is dropped.
\<close>

function first_by_path :: "py_dict list \<Rightarrow> py_dict list" where
  "first_by_path [] = []"
| "first_by_path (e # es) = e # first_by_path (filter (\<lambda>e'. entry_path e' \<noteq> entry_path e) es)"
  by pat_completeness auto
termination
  by (relation "measure length") (auto simp: less_Suc_eq_le)

definition deduplicated :: "py_dict list \<Rightarrow> py_dict list" where
  "deduplicated stream = first_by_path (filter accepted stream)"

text \<open>Batches of which all but the last hold \<open>B\<close> records and the last holds 1 to \<open>B\<close>.\<close>

fun batches_ok :: "int \<Rightarrow> 'a list list \<Rightarrow> bool" where
  "batches_ok B [] = True"
| "batches_ok B [b] = (0 < length b \<and> int (length b) \<le> B)"
| "batches_ok B (b # c # cs) = (int (length b) = B \<and> batches_ok B (c # cs))"

lemma if_truthy_path:
  "if_truthy (dict_get e ''path'') = (if entry_path e = [] then None else Some (entry_path e))"
  by (cases "map_of e ''path''") (simp_all add: dict_get_def entry_path_def dict_get_default_def)

lemma batch_loop_skip:
  "\<not> (accepted e \<and> entry_path e \<notin> seen) \<Longrightarrow>
   batch_loop B (e # es) buf seen = batch_loop B es buf seen"
  by (auto simp: if_truthy_path accepted_def has_required_keys_def)

lemma batch_loop_keep:
  "accepted e \<Longrightarrow> entry_path e \<notin> seen \<Longrightarrow>
   batch_loop B (e # es) buf seen =
     (if B \<le> int (length buf) + 1
      then (buf @ [e]) # batch_loop B es [] (insert (entry_path e) seen)
      else batch_loop B es (buf @ [e]) (insert (entry_path e) seen))"
  by (auto simp: if_truthy_path accepted_def has_required_keys_def)

lemma batch_loop_Nil:
  "batch_loop B [] buf seen = (if buf \<noteq> [] then [buf] else [])"
  by simp

lemma filter_unseen_insert:
  "filter (\<lambda>e'. entry_path e' \<noteq> p) (filter (\<lambda>e. accepted e \<and> entry_path e \<notin> seen) es)
     = filter (\<lambda>e. accepted e \<and> entry_path e \<notin> insert p seen) es"
  by (induction es) auto

lemma concat_batch_loop:
  "concat (batch_loop B es buf seen)
     = buf @ first_by_path (filter (\<lambda>e. accepted e \<and> entry_path e \<notin> seen) es)"
proof (induction es arbitrary: buf seen)
  case Nil
  show ?case by simp
next
  case (Cons e es)
  show ?case
  proof (cases "accepted e \<and> entry_path e \<notin> seen")
    case False
    then show ?thesis
      unfolding batch_loop_skip [OF False] using Cons.IH [of buf seen] by auto
  next
    case True
    then have a: "accepted e" and u: "entry_path e \<notin> seen" by simp_all
    have f: "filter (\<lambda>e. accepted e \<and> entry_path e \<notin> seen) (e # es)
               = e # filter (\<lambda>e. accepted e \<and> entry_path e \<notin> seen) es"
      using True by simp
    have r: "first_by_path (e # filter (\<lambda>e. accepted e \<and> entry_path e \<notin> seen) es)
               = e # first_by_path
                       (filter (\<lambda>x. accepted x \<and> entry_path x \<notin> insert (entry_path e) seen) es)"
      by (simp only: first_by_path.simps filter_unseen_insert)
    show ?thesis
      unfolding batch_loop_keep [OF a u] f r
      by (simp add: Cons.IH)
  qed
qed

lemma batches_ok_Cons:
  "batches_ok B (b # bs) =
     (if bs = [] then 0 < length b \<and> int (length b) \<le> B
      else int (length b) = B \<and> batches_ok B bs)"
  by (cases bs) simp_all

lemma batches_ok_batch_loop:
  "1 \<le> B \<Longrightarrow> int (length buf) < B \<Longrightarrow> batches_ok B (batch_loop B es buf seen)"
proof (induction es arbitrary: buf seen)
  case Nil
  then show ?case by simp
next
  case (Cons e es)
  show ?case
  proof (cases "accepted e \<and> entry_path e \<notin> seen")
    case False
    show ?thesis
      unfolding batch_loop_skip [OF False] using Cons.IH [OF Cons.prems] .
  next
    case True
    then have a: "accepted e" and u: "entry_path e \<notin> seen" by simp_all
    show ?thesis
    proof (cases "B \<le> int (length buf) + 1")
      case full: True
      with Cons.prems have len: "int (length (buf @ [e])) = B" by simp
      from Cons.prems have "int (length ([] :: py_dict list)) < B" by simp
      from Cons.IH [OF Cons.prems(1) this]
      have "batches_ok B (batch_loop B es [] (insert (entry_path e) seen))" .
      then have rest: "batches_ok B (batch_loop B es [] (insert (entry_path e) seen))" .
      have "batches_ok B ((buf @ [e]) # batch_loop B es [] (insert (entry_path e) seen))"
        unfolding batches_ok_Cons using len rest Cons.prems(1) by auto
      with full show ?thesis
        by (simp only: batch_loop_keep [OF a u] if_True)
    next
      case notfull: False
      then have "int (length (buf @ [e])) < B" by simp
      from Cons.IH [OF Cons.prems(1) this] notfull show ?thesis
        by (simp only: batch_loop_keep [OF a u] if_False)
    qed
  qed
qed

lemma batch_loop_keys:
  "\<forall>e \<in> set buf. has_required_keys e \<Longrightarrow>
   \<forall>batch \<in> set (batch_loop B es buf seen). \<forall>e \<in> set batch. has_required_keys e"
proof (induction es arbitrary: buf seen)
  case Nil
  then show ?case by simp
next
  case (Cons e es)
  show ?case
  proof (cases "accepted e \<and> entry_path e \<notin> seen")
    case False
    show ?thesis
      unfolding batch_loop_skip [OF False] using Cons.IH [OF Cons.prems] .
  next
    case True
    then have a: "accepted e" and u: "entry_path e \<notin> seen" by simp_all
    from a Cons.prems have k: "\<forall>x \<in> set (buf @ [e]). has_required_keys x"
      by (simp add: accepted_def)
    have e: "\<forall>x \<in> set ([] :: py_dict list). has_required_keys x" by simp
    show ?thesis
      unfolding batch_loop_keep [OF a u]
      using Cons.IH [OF k] Cons.IH [OF e] k by simp
  qed
qed

lemma batch_loop_drop:
  "\<not> has_required_keys r \<Longrightarrow>
   batch_loop B (xs @ r # ys) buf seen = batch_loop B (xs @ ys) buf seen"
proof (induction xs arbitrary: buf seen)
  case Nil
  then have n: "\<not> (accepted r \<and> entry_path r \<notin> seen)" by (simp add: accepted_def)
  show ?case by (simp only: batch_loop_skip [OF n] append_Nil)
next
  case (Cons e xs)
  show ?case
  proof (cases "accepted e \<and> entry_path e \<notin> seen")
    case False
    show ?thesis
      unfolding append_Cons batch_loop_skip [OF False] using Cons.IH [OF Cons.prems] .
  next
    case True
    then have a: "accepted e" and u: "entry_path e \<notin> seen" by simp_all
    show ?thesis
      unfolding append_Cons batch_loop_keep [OF a u]
      by (simp only: Cons.IH [OF Cons.prems])
  qed
qed

text \<open>
  A batch size below 1 is not rejected: the test \<open>len(documents_batch) >= batch_size\<close>
  then holds after every record, and each batch holds one record.
\<close>

lemma batch_loop_size_not_positive:
  "B \<le> 0 \<Longrightarrow> \<forall>b \<in> set (batch_loop B es [] seen). length b = 1"
proof (induction es arbitrary: seen)
  case Nil
  show ?case by simp
next
  case (Cons e es)
  show ?case
  proof (cases "accepted e \<and> entry_path e \<notin> seen")
    case False
    show ?thesis
      unfolding batch_loop_skip [OF False] using Cons.IH [OF Cons.prems] .
  next
    case True
    then have a: "accepted e" and u: "entry_path e \<notin> seen" by simp_all
    from Cons.prems have full: "B \<le> int (length ([] :: py_dict list)) + 1" by simp
    show ?thesis
      unfolding batch_loop_keep [OF a u]
      using full Cons.IH [OF Cons.prems, of "insert (entry_path e) seen"] by simp
  qed
qed

section \<open>Counting the batches\<close>

lemma batches_ok_full:
  "batches_ok B out \<Longrightarrow> Suc i < length out \<Longrightarrow> int (length (out ! i)) = B"
proof (induction B out arbitrary: i rule: batches_ok.induct)
  case (1 B)
  then show ?case by simp
next
  case (2 B b)
  then show ?case by simp
next
  case (3 B b c cs)
  show ?case
  proof (cases i)
    case 0
    with "3.prems" show ?thesis by simp
  next
    case (Suc j)
    with "3.prems" "3.IH" [of j] show ?thesis by simp
  qed
qed

lemma batches_ok_total:
  "1 \<le> B \<Longrightarrow> batches_ok B out \<Longrightarrow> out \<noteq> [] \<Longrightarrow>
   int (length (concat out)) = (int (length out) - 1) * B + int (length (last out))
   \<and> 0 < length (last out) \<and> int (length (last out)) \<le> B"
proof (induction B out rule: batches_ok.induct)
  case (1 B)
  then show ?case by simp
next
  case (2 B b)
  then show ?case by simp
next
  case (3 B b c cs)
  then show ?case by (simp add: algebra_simps)
qed

lemma ceiling_batches:
  fixes B k r :: int
  assumes "1 \<le> B" "0 \<le> k" "0 < r" "r \<le> B"
  shows "\<lceil>real_of_int (k * B + r) / real_of_int B\<rceil> = k + 1"
proof (rule ceiling_unique)
  from assms have pos: "0 < real_of_int B" by simp
  have "real_of_int k * real_of_int B < real_of_int (k * B + r)"
    using assms(3) by simp
  then show "of_int (k + 1) - 1 < real_of_int (k * B + r) / real_of_int B"
    using pos by (simp add: pos_less_divide_eq)
  have "real_of_int (k * B + r) \<le> real_of_int ((k + 1) * B)"
    using assms(4) by (simp only: of_int_le_iff) (simp add: algebra_simps)
  then show "real_of_int (k * B + r) / real_of_int B \<le> of_int (k + 1)"
    using pos by (simp add: pos_divide_le_eq)
qed

lemma last_batch_size:
  fixes B k r :: int
  assumes "1 \<le> B" "0 \<le> k" "0 < r" "r \<le> B"
  shows "(if (k * B + r) mod B = 0 then B else (k * B + r) mod B) = r"
proof (cases "r = B")
  case True
  then show ?thesis by simp
next
  case False
  with assms have "r < B" by simp
  with assms have "(k * B + r) mod B = r" by simp
  with assms show ?thesis by simp
qed

section \<open>Deduplication keeps the first record of each path\<close>

lemma set_first_by_path: "set (first_by_path es) \<subseteq> set es"
proof (induction es rule: first_by_path.induct)
  case 1
  show ?case by simp
next
  case (2 e es)
  then show ?case by auto
qed

lemma paths_first_by_path: "entry_path ` set (first_by_path es) = entry_path ` set es"
proof (induction es rule: first_by_path.induct)
  case 1
  show ?case by simp
next
  case (2 e es)
  have "entry_path ` set (e # es)
          = insert (entry_path e) (entry_path ` set (filter (\<lambda>e'. entry_path e' \<noteq> entry_path e) es))"
    by auto
  with 2 show ?case by simp
qed

lemma distinct_first_by_path: "distinct (map entry_path (first_by_path es))"
proof (induction es rule: first_by_path.induct)
  case 1
  show ?case by simp
next
  case (2 e es)
  have "entry_path e \<notin> entry_path ` set (filter (\<lambda>e'. entry_path e' \<noteq> entry_path e) es)"
    by auto
  then have "entry_path e
      \<notin> entry_path ` set (first_by_path (filter (\<lambda>e'. entry_path e' \<noteq> entry_path e) es))"
    unfolding paths_first_by_path .
  with 2 show ?case by simp
qed

lemma find_filter_implied:
  "(\<And>x. P x \<Longrightarrow> Q x) \<Longrightarrow> List.find P (filter Q xs) = List.find P xs"
  by (induction xs) auto

lemma find_filter_conj:
  "List.find P (filter Q xs) = List.find (\<lambda>x. Q x \<and> P x) xs"
  by (induction xs) auto

lemma find_first_by_path:
  "x \<in> set (first_by_path es) \<Longrightarrow>
   List.find (\<lambda>e'. entry_path e' = entry_path x) es = Some x"
proof (induction es rule: first_by_path.induct)
  case 1
  then show ?case by simp
next
  case (2 e es)
  show ?case
  proof (cases "x = e")
    case True
    then show ?thesis by simp
  next
    case False
    with "2.prems"
    have mem: "x \<in> set (first_by_path (filter (\<lambda>e'. entry_path e' \<noteq> entry_path e) es))"
      by simp
    with set_first_by_path have "x \<in> set (filter (\<lambda>e'. entry_path e' \<noteq> entry_path e) es)"
      by blast
    then have ne: "entry_path x \<noteq> entry_path e" by simp
    have "List.find (\<lambda>e'. entry_path e' = entry_path x)
            (filter (\<lambda>e'. entry_path e' \<noteq> entry_path e) es)
          = List.find (\<lambda>e'. entry_path e' = entry_path x) es"
      using ne by (intro find_filter_implied) auto
    with "2.IH" [OF mem] ne show ?thesis by auto
  qed
qed

section \<open>Claims about the batcher\<close>

text \<open>
  Three records for the paths \<open>a\<close>, \<open>b\<close>, \<open>c\<close>, a second record for \<open>a\<close> with other
  content, and a record for \<open>d\<close> that lacks the key \<open>documentation\<close>.
\<close>

definition entry_a :: py_dict where "entry_a = make_entry ''a'' ''first'' ''m'' ''a''"
definition entry_a2 :: py_dict where "entry_a2 = make_entry ''a'' ''second'' ''s'' ''a''"
definition entry_b :: py_dict where "entry_b = make_entry ''a/b'' ''bdoc'' ''none'' ''a''"
definition entry_c :: py_dict where "entry_c = make_entry ''c'' ''cdoc'' ''none'' ''c''"
definition entry_bad :: py_dict where "entry_bad = [(''path'', ''d''), (''ids_name'', ''d'')]"

lemma document_batches_example:
  "document_batches 2 [entry_a, entry_b, entry_a2, entry_bad, entry_c]
     = [[entry_a, entry_b], [entry_c]]"
  by code_simp

lemma deduplicated_example:
  "deduplicated [entry_a, entry_b, entry_a2, entry_bad, entry_c] = [entry_a, entry_b, entry_c]"
  by code_simp

text \<open>A complete record for the path \<open>d\<close>, the path of the incomplete \<open>entry_bad\<close>.\<close>

definition entry_d :: py_dict where "entry_d = make_entry ''d'' ''ddoc'' ''none'' ''d''"

lemma document_batches_negative_example:
  "document_batches (- 3) [entry_a, entry_b, entry_c] = [[entry_a], [entry_b], [entry_c]]"
  by code_simp

lemma document_batches_zero_example:
  "document_batches 0 [entry_a, entry_b, entry_c] = [[entry_a], [entry_b], [entry_c]]"
  by code_simp

lemma deduplicated_distinct_example:
  "deduplicated [entry_a, entry_b, entry_c] = [entry_a, entry_b, entry_c]"
  by code_simp

lemma document_batches_incomplete_first_example:
  "document_batches 2 [entry_bad, entry_d] = [[entry_d]]"
  by code_simp

lemma length_concat_singletons:
  "\<forall>b \<in> set bs. length b = 1 \<Longrightarrow> length (concat bs) = length bs"
  by (induction bs) simp_all

text \<open>
  C2 as stated fails for a batch size below 1, which the code does not reject: with
  \<open>B = -3\<close> (and with \<open>B = 0\<close>) three records with distinct paths come out as three
  batches of one record, where \<open>ceil(3 / -3) = -1\<close> and no batch has size \<open>B\<close>. It also
  fails on a stream whose first record for a path is incomplete: \<open>entry_bad\<close> has the
  path \<open>d\<close> and no documentation, it is dropped without its path being marked as seen,
  and the later record \<open>entry_d\<close> with the same path is emitted.
\<close>

theorem C2_batch_size_counterexample:
  "document_batches (- 3) [entry_a, entry_b, entry_c] = [[entry_a], [entry_b], [entry_c]]
   \<and> deduplicated [entry_a, entry_b, entry_c] = [entry_a, entry_b, entry_c]
   \<and> \<lceil>real (length [entry_a, entry_b, entry_c]) / real_of_int (- 3)\<rceil> = - 1
   \<and> int (length (document_batches (- 3) [entry_a, entry_b, entry_c]))
        \<noteq> \<lceil>real (length (deduplicated [entry_a, entry_b, entry_c])) / real_of_int (- 3)\<rceil>
   \<and> int (length (document_batches (- 3) [entry_a, entry_b, entry_c] ! 0)) \<noteq> - 3
   \<and> document_batches 0 [entry_a, entry_b, entry_c] = [[entry_a], [entry_b], [entry_c]]
   \<and> int (length (document_batches 0 [entry_a, entry_b, entry_c] ! 0)) \<noteq> 0
   \<and> entry_path entry_bad = entry_path entry_d
   \<and> document_batches 2 [entry_bad, entry_d] = [[entry_d]]"
proof -
  have "real (length [entry_a, entry_b, entry_c]) / real_of_int (- 3) = real_of_int (- 1)"
    by simp
  then have c: "\<lceil>real (length [entry_a, entry_b, entry_c]) / real_of_int (- 3)\<rceil> = - 1"
    by (simp only: ceiling_of_int)
  have p: "entry_path entry_bad = entry_path entry_d" by code_simp
  show ?thesis
    unfolding document_batches_negative_example document_batches_zero_example
      deduplicated_distinct_example document_batches_incomplete_first_example c p
    by simp
qed

text \<open>
  C2, amended. For every document stream and every batch size \<open>B\<close>, the batches,
  concatenated, are the stream deduplicated by path among the records the batcher can
  keep (non-empty path, all three keys), the first such record of each path winning and
  the order of the stream kept. With \<open>N\<close> the length of that sequence: for \<open>B \<ge> 1\<close> there
  are \<open>ceil(N/B)\<close> batches, all but the last hold \<open>B\<close> records and the last holds
  \<open>N mod B\<close>, or \<open>B\<close> when \<open>B\<close> divides \<open>N\<close>; for \<open>B \<le> 0\<close> there are \<open>N\<close> batches of one
  record each.
\<close>

theorem C2_batches:
  "concat (document_batches B stream) = deduplicated stream
    \<and> distinct (map entry_path (deduplicated stream))
    \<and> (\<forall>e \<in> set (deduplicated stream).
          List.find (\<lambda>e'. accepted e' \<and> entry_path e' = entry_path e) stream = Some e)
    \<and> (\<forall>e \<in> set stream. accepted e \<longrightarrow> entry_path e \<in> entry_path ` set (deduplicated stream))
    \<and> (1 \<le> B \<longrightarrow>
          int (length (document_batches B stream))
            = \<lceil>real (length (deduplicated stream)) / real_of_int B\<rceil>
          \<and> (\<forall>i. Suc i < length (document_batches B stream)
                \<longrightarrow> int (length (document_batches B stream ! i)) = B)
          \<and> (document_batches B stream \<noteq> [] \<longrightarrow>
                int (length (last (document_batches B stream)))
                  = (if int (length (deduplicated stream)) mod B = 0 then B
                     else int (length (deduplicated stream)) mod B)))
    \<and> (B \<le> 0 \<longrightarrow>
          length (document_batches B stream) = length (deduplicated stream)
          \<and> (\<forall>b \<in> set (document_batches B stream). length b = 1))"
proof -
  let ?out = "document_batches B stream"
  let ?D = "deduplicated stream"
  have cat: "concat ?out = ?D"
    by (simp add: document_batches_def deduplicated_def concat_batch_loop)
  have dist: "distinct (map entry_path ?D)"
    by (simp add: deduplicated_def distinct_first_by_path)
  have first: "\<forall>e \<in> set ?D.
      List.find (\<lambda>e'. accepted e' \<and> entry_path e' = entry_path e) stream = Some e"
    using find_first_by_path [of _ "filter accepted stream"]
    by (simp add: deduplicated_def find_filter_conj)
  have cover: "\<forall>e \<in> set stream. accepted e \<longrightarrow> entry_path e \<in> entry_path ` set ?D"
    by (simp add: deduplicated_def paths_first_by_path)
  have positive: "int (length ?out) = \<lceil>real (length ?D) / real_of_int B\<rceil>
      \<and> (\<forall>i. Suc i < length ?out \<longrightarrow> int (length (?out ! i)) = B)
      \<and> (?out \<noteq> [] \<longrightarrow>
            int (length (last ?out))
              = (if int (length ?D) mod B = 0 then B else int (length ?D) mod B))"
    if pos: "1 \<le> B"
  proof -
    from pos have ok: "batches_ok B ?out"
      by (simp add: document_batches_def batches_ok_batch_loop)
    have full: "\<forall>i. Suc i < length ?out \<longrightarrow> int (length (?out ! i)) = B"
      using batches_ok_full [OF ok] by blast
    have count: "int (length ?out) = \<lceil>real (length ?D) / real_of_int B\<rceil>"
    proof (cases "?out = []")
      case True
      with cat have "?D = []" by simp
      with True show ?thesis by simp
    next
      case False
      from batches_ok_total [OF pos ok False]
      have n: "int (length (concat ?out))
                 = (int (length ?out) - 1) * B + int (length (last ?out))"
        and r: "0 < length (last ?out)" "int (length (last ?out)) \<le> B"
        by simp_all
      from False have k: "0 \<le> int (length ?out) - 1"
        by (cases ?out) simp_all
      from r have r': "0 < int (length (last ?out))" by simp
      have "real (length ?D)
              = real_of_int ((int (length ?out) - 1) * B + int (length (last ?out)))"
        using n cat by (metis of_int_of_nat_eq)
      with ceiling_batches [OF pos k r' r(2)] show ?thesis by simp
    qed
    have last: "?out \<noteq> [] \<longrightarrow>
        int (length (last ?out))
          = (if int (length ?D) mod B = 0 then B else int (length ?D) mod B)"
    proof
      assume ne: "?out \<noteq> []"
      from batches_ok_total [OF pos ok ne]
      have n: "int (length (concat ?out))
                 = (int (length ?out) - 1) * B + int (length (last ?out))"
        and r: "0 < length (last ?out)" "int (length (last ?out)) \<le> B"
        by simp_all
      from ne have k: "0 \<le> int (length ?out) - 1"
        by (cases ?out) simp_all
      from r have r': "0 < int (length (last ?out))" by simp
      from n cat
      have d: "int (length ?D) = (int (length ?out) - 1) * B + int (length (last ?out))"
        by simp
      show "int (length (last ?out))
          = (if int (length ?D) mod B = 0 then B else int (length ?D) mod B)"
        unfolding d by (rule last_batch_size [OF pos k r' r(2), symmetric])
    qed
    from count full last show ?thesis by (intro conjI)
  qed
  have not_positive: "length ?out = length ?D \<and> (\<forall>b \<in> set ?out. length b = 1)"
    if np: "B \<le> 0"
  proof -
    from batch_loop_size_not_positive [OF np, of stream "{}"]
    have one: "\<forall>b \<in> set ?out. length b = 1" by (simp add: document_batches_def)
    from length_concat_singletons [OF one] cat have "length ?out = length ?D" by simp
    with one show ?thesis by (intro conjI)
  qed
  show ?thesis
  proof (intro conjI impI)
    show "concat ?out = ?D" by (rule cat)
    show "distinct (map entry_path ?D)" by (rule dist)
    show "\<forall>e \<in> set ?D.
      List.find (\<lambda>e'. accepted e' \<and> entry_path e' = entry_path e) stream = Some e"
      by (rule first)
    show "\<forall>e \<in> set stream. accepted e \<longrightarrow> entry_path e \<in> entry_path ` set ?D"
      by (rule cover)
  next
    assume "1 \<le> B"
    from positive [OF this]
    show "int (length ?out) = \<lceil>real (length ?D) / real_of_int B\<rceil>" by (rule conjunct1)
  next
    assume "1 \<le> B"
    from positive [OF this]
    show "\<forall>i. Suc i < length ?out \<longrightarrow> int (length (?out ! i)) = B"
      by (elim conjE)
  next
    assume "1 \<le> B" and "?out \<noteq> []"
    with positive
    show "int (length (last ?out))
              = (if int (length ?D) mod B = 0 then B else int (length ?D) mod B)"
      by blast
  next
    assume "B \<le> 0"
    from not_positive [OF this] show "length ?out = length ?D" by (rule conjunct1)
  next
    assume "B \<le> 0"
    from not_positive [OF this] show "\<forall>b \<in> set ?out. length b = 1" by (rule conjunct2)
  qed
qed

theorem C2_batches_witness:
  "(1::int) \<le> 2
   \<and> concat (document_batches 2 [entry_a, entry_b, entry_a2, entry_bad, entry_c])
       = [entry_a, entry_b, entry_c]
   \<and> deduplicated [entry_a, entry_b, entry_a2, entry_bad, entry_c] = [entry_a, entry_b, entry_c]
   \<and> List.find (\<lambda>e'. accepted e' \<and> entry_path e' = entry_path entry_a)
        [entry_a, entry_b, entry_a2, entry_bad, entry_c] = Some entry_a
   \<and> int (length (document_batches 2 [entry_a, entry_b, entry_a2, entry_bad, entry_c]))
       = \<lceil>real (length [entry_a, entry_b, entry_c]) / real_of_int 2\<rceil>
   \<and> int (length (document_batches 2 [entry_a, entry_b, entry_a2, entry_bad, entry_c] ! 0)) = 2
   \<and> int (length (last (document_batches 2 [entry_a, entry_b, entry_a2, entry_bad, entry_c])))
       = int (length [entry_a, entry_b, entry_c]) mod 2
   \<and> (- 3 :: int) \<le> 0
   \<and> length (document_batches (- 3) [entry_a, entry_b, entry_c])
       = length (deduplicated [entry_a, entry_b, entry_c])
   \<and> length (document_batches (- 3) [entry_a, entry_b, entry_c] ! 0) = 1"
proof -
  have h: "(1::int) \<le> 2" by simp
  have n: "(- 3 :: int) \<le> 0" by simp
  note t = C2_batches [of 2 "[entry_a, entry_b, entry_a2, entry_bad, entry_c]"]
  note u = C2_batches [of "- 3" "[entry_a, entry_b, entry_c]"]
  note u_np = u [THEN conjunct2, THEN conjunct2, THEN conjunct2, THEN conjunct2,
                 THEN conjunct2, THEN mp, OF n]
  from u_np have u1: "length (document_batches (- 3) [entry_a, entry_b, entry_c])
       = length (deduplicated [entry_a, entry_b, entry_c])"
    by (rule conjunct1)
  from u_np have "\<forall>b \<in> set (document_batches (- 3) [entry_a, entry_b, entry_c]). length b = 1"
    by (rule conjunct2)
  then have u2: "length (document_batches (- 3) [entry_a, entry_b, entry_c] ! 0) = 1"
    by (simp add: document_batches_negative_example)
  have first: "concat (document_batches 2 [entry_a, entry_b, entry_a2, entry_bad, entry_c])
       = [entry_a, entry_b, entry_c]
   \<and> deduplicated [entry_a, entry_b, entry_a2, entry_bad, entry_c] = [entry_a, entry_b, entry_c]
   \<and> List.find (\<lambda>e'. accepted e' \<and> entry_path e' = entry_path entry_a)
        [entry_a, entry_b, entry_a2, entry_bad, entry_c] = Some entry_a
   \<and> int (length (document_batches 2 [entry_a, entry_b, entry_a2, entry_bad, entry_c]))
       = \<lceil>real (length [entry_a, entry_b, entry_c]) / real_of_int 2\<rceil>
   \<and> int (length (document_batches 2 [entry_a, entry_b, entry_a2, entry_bad, entry_c] ! 0)) = 2
   \<and> int (length (last (document_batches 2 [entry_a, entry_b, entry_a2, entry_bad, entry_c])))
       = int (length [entry_a, entry_b, entry_c]) mod 2"
    using t h by (simp add: deduplicated_example document_batches_example)
  from h first n u1 u2 show ?thesis by (intro conjI) (elim conjE, assumption)+
qed

text \<open>
  C9. The batcher is a total function of its stream: nothing in it raises. A record that
  lacks one of the keys \<open>path\<close>, \<open>documentation\<close>, \<open>ids_name\<close> changes nothing (the
  batches are those of the stream without it), and every record of every batch has all
  three keys.
\<close>

theorem C9_incomplete_records_dropped:
  "(\<forall>batch \<in> set (document_batches B stream). \<forall>e \<in> set batch.
       dict_contains e ''path'' \<and> dict_contains e ''documentation'' \<and> dict_contains e ''ids_name'')
   \<and> (\<forall>xs r ys.
         stream = xs @ r # ys \<and>
         \<not> (dict_contains r ''path'' \<and> dict_contains r ''documentation'' \<and> dict_contains r ''ids_name'')
         \<longrightarrow> document_batches B stream = document_batches B (xs @ ys))"
proof -
  have e: "\<forall>x \<in> set ([] :: py_dict list). has_required_keys x" by simp
  have keys: "\<forall>batch \<in> set (document_batches B stream). \<forall>e \<in> set batch.
       dict_contains e ''path'' \<and> dict_contains e ''documentation'' \<and> dict_contains e ''ids_name''"
    using batch_loop_keys [OF e, of B stream "{}"]
    by (simp add: document_batches_def has_required_keys_def)
  have drop: "document_batches B stream = document_batches B (xs @ ys)"
    if "stream = xs @ r # ys"
      and "\<not> (dict_contains r ''path'' \<and> dict_contains r ''documentation''
              \<and> dict_contains r ''ids_name'')"
    for xs r ys
  proof -
    from that(2) have "\<not> has_required_keys r" by (simp add: has_required_keys_def)
    from batch_loop_drop [OF this] that(1) show ?thesis
      by (simp add: document_batches_def)
  qed
  from keys drop show ?thesis by blast
qed

theorem C9_incomplete_records_dropped_witness:
  "\<not> (dict_contains entry_bad ''path'' \<and> dict_contains entry_bad ''documentation''
         \<and> dict_contains entry_bad ''ids_name'')
   \<and> document_batches 2 [entry_a, entry_b, entry_a2, entry_bad, entry_c]
       = document_batches 2 ([entry_a, entry_b, entry_a2] @ [entry_c])
   \<and> document_batches 2 [entry_a, entry_b, entry_a2, entry_bad, entry_c]
       = [[entry_a, entry_b], [entry_c]]
   \<and> dict_contains entry_c ''path'' \<and> dict_contains entry_c ''documentation''
   \<and> dict_contains entry_c ''ids_name''"
proof -
  have bad: "\<not> (dict_contains entry_bad ''path'' \<and> dict_contains entry_bad ''documentation''
         \<and> dict_contains entry_bad ''ids_name'')"
    by (simp add: entry_bad_def dict_contains_def)
  have split: "[entry_a, entry_b, entry_a2, entry_bad, entry_c]
                 = [entry_a, entry_b, entry_a2] @ entry_bad # [entry_c]"
    by simp
  from C9_incomplete_records_dropped [of 2 "[entry_a, entry_b, entry_a2, entry_bad, entry_c]"]
  have keys: "\<forall>batch \<in> set (document_batches 2 [entry_a, entry_b, entry_a2, entry_bad, entry_c]).
                \<forall>e \<in> set batch. dict_contains e ''path'' \<and> dict_contains e ''documentation''
                  \<and> dict_contains e ''ids_name''"
    and drop: "document_batches 2 [entry_a, entry_b, entry_a2, entry_bad, entry_c]
                 = document_batches 2 ([entry_a, entry_b, entry_a2] @ [entry_c])"
    using bad split by blast+
  from keys have "dict_contains entry_c ''path'' \<and> dict_contains entry_c ''documentation''
                  \<and> dict_contains entry_c ''ids_name''"
    by (simp add: document_batches_example)
  with bad drop document_batches_example show ?thesis by simp
qed

section \<open>The leaf chosen by the composer\<close>

text \<open>The depth the composer sorts by, and the greatest depth among the keys of a map.\<close>

definition slashes :: "string \<Rightarrow> nat" where
  "slashes k = str_count k CHR ''/''"

definition max_depth :: "py_dict \<Rightarrow> nat" where
  "max_depth documentation_parts = Max (set (map slashes (map fst documentation_parts)))"

text \<open>
  The leaf as the specification words it (among the deepest paths, the one collected
  first), and the one collected last.
\<close>

definition first_deepest :: "py_dict \<Rightarrow> string" where
  "first_deepest documentation_parts =
     hd (filter (\<lambda>k. slashes k = max_depth documentation_parts) (map fst documentation_parts))"

definition last_deepest :: "py_dict \<Rightarrow> string" where
  "last_deepest documentation_parts =
     last (filter (\<lambda>k. slashes k = max_depth documentation_parts) (map fst documentation_parts))"

lemma paths_by_depth_slashes:
  "paths_by_depth parts = sort_key slashes (map fst parts)"
  unfolding paths_by_depth_def slashes_def ..

lemma last_filter_keep:
  "xs \<noteq> [] \<Longrightarrow> P (last xs) \<Longrightarrow> last (filter P xs) = last xs"
  by (induction xs rule: rev_induct) simp_all

lemma sorted_map_last_greatest:
  assumes "sorted (map f xs)" and "x \<in> set xs"
  shows "f x \<le> f (last xs)"
proof -
  from assms(2) have ne: "xs \<noteq> []" by auto
  from assms(2) obtain i where i: "i < length xs" "xs ! i = x"
    by (auto simp: in_set_conv_nth)
  from ne have l: "last xs = xs ! (length xs - 1)" by (rule last_conv_nth)
  from i ne have "map f xs ! i \<le> map f xs ! (length xs - 1)"
    by (intro sorted_nth_mono [OF assms(1)]) auto
  with i l ne show ?thesis by simp
qed

lemma deepest_path_max:
  assumes "parts \<noteq> []"
  shows "slashes (deepest_path parts) = max_depth parts"
proof -
  let ?S = "paths_by_depth parts"
  from assms have ne: "?S \<noteq> []" by (simp add: paths_by_depth_Nil)
  then have mem: "last ?S \<in> set ?S" by simp
  have srt: "sorted (map slashes ?S)"
    unfolding paths_by_depth_slashes by (rule sorted_sort_key)
  have set_eq: "set ?S = set (map fst parts)"
    by (simp add: set_paths_by_depth)
  have "Max (slashes ` set (map fst parts)) = slashes (last ?S)"
  proof (rule Max_eqI)
    show "finite (slashes ` set (map fst parts))" by simp
    show "y \<le> slashes (last ?S)" if "y \<in> slashes ` set (map fst parts)" for y
    proof -
      from that obtain x where "x \<in> set ?S" "y = slashes x"
        unfolding set_eq [symmetric] by blast
      with sorted_map_last_greatest [OF srt] show ?thesis by simp
    qed
    from mem show "slashes (last ?S) \<in> slashes ` set (map fst parts)"
      unfolding set_eq [symmetric] by blast
  qed
  then show ?thesis by (simp add: max_depth_def deepest_path_def image_image)
qed

lemma deepest_path_last_deepest:
  assumes "parts \<noteq> []"
  shows "deepest_path parts = last_deepest parts"
proof -
  let ?S = "paths_by_depth parts"
  let ?P = "\<lambda>k. slashes k = max_depth parts"
  from assms have ne: "?S \<noteq> []" by (simp add: paths_by_depth_Nil)
  have "?P (last ?S)"
    using deepest_path_max [OF assms] by (simp add: deepest_path_def)
  with ne have "last (filter ?P ?S) = last ?S" by (rule last_filter_keep)
  moreover have "filter ?P ?S = filter ?P (map fst parts)"
    unfolding paths_by_depth_slashes by (rule sort_key_stable)
  ultimately show ?thesis by (simp add: deepest_path_def last_deepest_def)
qed

lemma deepest_path_key:
  "parts \<noteq> [] \<Longrightarrow> deepest_path parts \<in> fst ` set parts"
proof -
  assume "parts \<noteq> []"
  then have "paths_by_depth parts \<noteq> []" by (simp add: paths_by_depth_Nil)
  then have "last (paths_by_depth parts) \<in> set (paths_by_depth parts)" by simp
  then show ?thesis by (simp add: deepest_path_def set_paths_by_depth)
qed

section \<open>The order of the context paths\<close>

text \<open>The keys other than the leaf, in the insertion order of the map.\<close>

definition non_leaf_keys :: "py_dict \<Rightarrow> string list" where
  "non_leaf_keys documentation_parts =
     filter (\<lambda>k. k \<noteq> deepest_path documentation_parts) (map fst documentation_parts)"

lemma butlast_filter_last:
  "distinct xs \<Longrightarrow> butlast xs = filter (\<lambda>x. x \<noteq> last xs) xs"
proof (induction xs rule: rev_induct)
  case Nil
  show ?case by simp
next
  case (snoc x xs)
  then have "x \<notin> set xs" by simp
  then have "filter (\<lambda>y. y \<noteq> x) xs = xs" by (induction xs) auto
  then show ?case by simp
qed

lemma remaining_paths_sorted_non_leaf:
  assumes "distinct (map fst parts)"
  shows "remaining_paths parts = sort_key slashes (non_leaf_keys parts)"
proof -
  let ?S = "paths_by_depth parts"
  from assms have "distinct ?S" by (simp add: paths_by_depth_slashes)
  then have "butlast ?S = filter (\<lambda>x. x \<noteq> last ?S) ?S" by (rule butlast_filter_last)
  also have "\<dots> = sort_key slashes (filter (\<lambda>x. x \<noteq> last ?S) (map fst parts))"
    unfolding paths_by_depth_slashes by (rule filter_sort)
  finally show ?thesis
    by (simp add: remaining_paths_def non_leaf_keys_def deepest_path_def)
qed

lemma remaining_paths_Nil: "remaining_paths parts = [] \<longleftrightarrow> length parts < 2"
proof -
  have "length (remaining_paths parts) = length parts - 1"
    by (simp add: remaining_paths_def paths_by_depth_def)
  then show ?thesis by (cases "remaining_paths parts") auto
qed

section \<open>Header levels\<close>

text \<open>The markdown header level of a block: the number of \<open>#\<close> it starts with.\<close>

definition header_level :: "string \<Rightarrow> nat" where
  "header_level s = length (takeWhile (\<lambda>c. c = CHR ''#'') s)"

lemma takeWhile_replicate_stop:
  "b \<noteq> a \<Longrightarrow> takeWhile (\<lambda>c. c = a) (replicate n a @ b # rest) = replicate n a"
  by (induction n) simp_all

lemma concat_replicate_two_spaces:
  "concat (replicate n ''  '') = replicate (2 * n) CHR '' ''"
  by (induction n) simp_all

lemma context_block_shallow:
  "slashes path_key + 3 \<le> 6 \<Longrightarrow>
   context_block path_key doc
     = replicate (slashes path_key + 3) CHR ''#'' @ '' '' @ path_key @ ''\<newline>'' @ doc"
  by (simp add: context_block_def slashes_def Let_def numeral_3_eq_3)

lemma context_block_deep:
  "6 < slashes path_key + 3 \<Longrightarrow>
   context_block path_key doc
     = ''###### '' @ replicate (2 * (slashes path_key + 3 - 6)) CHR '' ''
         @ ''**'' @ path_key @ ''**\<newline>''
         @ replicate (2 * (slashes path_key + 3 - 6)) CHR '' '' @ doc"
  by (simp add: context_block_def slashes_def Let_def concat_replicate_two_spaces)

lemma header_level_context_block:
  "header_level (context_block path_key doc) = min 6 (slashes path_key + 3)"
proof (cases "slashes path_key + 3 \<le> 6")
  case True
  have "takeWhile (\<lambda>c. c = CHR ''#'')
          (replicate (slashes path_key + 3) CHR ''#'' @ CHR '' '' # (path_key @ ''\<newline>'' @ doc))
        = replicate (slashes path_key + 3) CHR ''#''"
    by (rule takeWhile_replicate_stop) simp
  with True show ?thesis
    by (simp add: context_block_shallow header_level_def)
next
  case False
  then have "6 < slashes path_key + 3" by simp
  then show ?thesis
    by (simp add: context_block_deep header_level_def)
qed

lemma header_level_leaf_line: "header_level (''**'' @ rest) = 0"
  by (simp add: header_level_def)

lemma header_level_context_header: "header_level ''## Hierarchical Context'' = 2"
  by (simp add: header_level_def)

lemma context_blocks_members:
  "s \<in> set (context_blocks parts ks) \<Longrightarrow>
   \<exists>k. k \<in> set ks \<and> dict_get_default parts k [] \<noteq> []
        \<and> s = context_block k (dict_get_default parts k [])"
  by (auto simp: context_blocks_def)

lemma str_join_Cons:
  "str_join sep (x # xs) = x @ (if xs = [] then [] else sep @ str_join sep xs)"
  by (cases xs) simp_all

section \<open>Claims about the composer\<close>

text \<open>
  Two fragment maps used below. In \<open>parts_tie\<close> two paths share the greatest depth. The
  map \<open>parts_walk\<close> has its shallowest key inserted last, as the upward walk inserts the
  top-level structure's name after all other keys; \<open>parts_empty_context\<close> has one
  non-leaf fragment, whose text is empty.
\<close>

definition parts_tie :: py_dict where
  "parts_tie = [(''a/b'', ''1''), (''a/c'', ''2'')]"

definition parts_walk :: py_dict where
  "parts_walk = [(''X/Z'', ''z doc''), (''X/Y/Z'', ''child doc''), (''X'', ''root doc'')]"

text \<open>
  The scenario schema with documentation "z doc" on \<open>Z\<close>: the walk from \<open>Z\<close> builds
  \<open>parts_walk\<close> (lemma \<open>walk_builds_parts_walk\<close>).
\<close>

definition schema_z_doc :: element where
  "schema_z_doc =
     Element ''IDSs'' []
       [Element ''IDS'' [(''name'', ''X''), (''documentation'', ''root doc'')]
          [Element ''field''
             [(''name'', ''Y''), (''documentation'', ''child doc''), (''units'', ''m'')]
             [Element ''field''
                [(''name'', ''Z''), (''documentation'', ''z doc''), (''units'', ''as_parent'')]
                []]]]"

definition parts_empty_context :: py_dict where
  "parts_empty_context = [(''a'', ''''), (''a/b'', ''x'')]"

lemma doc_sections_parts_walk:
  "doc_sections parts_walk = Inr
     [''**X/Y/Z**\<newline>child doc'', ''## Hierarchical Context'',
      ''### X\<newline>root doc'', ''#### X/Z\<newline>z doc'']"
  by code_simp

lemma walk_builds_parts_walk:
  "(case walk_up schema_z_doc [0] ''X'' (Some [0, 0, 0]) ([], [], ''as_parent'') of
      (path_parts, documentation_parts, units) \<Rightarrow>
        dict_setitem documentation_parts ''X'' ''root doc'') = parts_walk"
  by code_simp

text \<open>
  C4 as stated fails on a tie: in \<open>parts_tie\<close> the path collected first among the
  deepest is \<open>a/b\<close>, and the composer takes \<open>a/c\<close> for the leaf.
\<close>

theorem C4_first_deepest_counterexample:
  "deepest_path parts_tie = ''a/c'' \<and> first_deepest parts_tie = ''a/b''
   \<and> build_hierarchical_documentation parts_tie
       = Inr ''**a/c**\<newline>2\<newline>\<newline>## Hierarchical Context\<newline>\<newline>#### a/b\<newline>1''"
  by code_simp

text \<open>
  C4, amended. For every non-empty fragment map the leaf is a key of the map with the
  greatest count of \<open>/\<close>, and among the keys of that depth it is the one inserted last:
  the sort is stable and the leaf is the last element of the sorted list.
\<close>

theorem C4_leaf_is_last_deepest:
  assumes "documentation_parts \<noteq> []"
  shows "deepest_path documentation_parts \<in> fst ` set documentation_parts
    \<and> (\<forall>k \<in> fst ` set documentation_parts.
          str_count k CHR ''/'' \<le> str_count (deepest_path documentation_parts) CHR ''/'')
    \<and> deepest_path documentation_parts = last_deepest documentation_parts"
proof -
  have "slashes k \<le> slashes (deepest_path documentation_parts)"
    if "k \<in> fst ` set documentation_parts" for k
  proof -
    from that have "slashes k \<in> set (map slashes (map fst documentation_parts))" by auto
    then have "slashes k \<le> max_depth documentation_parts"
      unfolding max_depth_def by (intro Max_ge) simp_all
    then show ?thesis by (simp add: deepest_path_max [OF assms])
  qed
  then have "\<forall>k \<in> fst ` set documentation_parts.
          str_count k CHR ''/'' \<le> str_count (deepest_path documentation_parts) CHR ''/''"
    by (simp add: slashes_def)
  with deepest_path_key [OF assms] deepest_path_last_deepest [OF assms]
  show ?thesis by blast
qed

theorem C4_leaf_is_last_deepest_witness:
  "parts_tie \<noteq> []
   \<and> ''a/b'' \<in> fst ` set parts_tie
   \<and> str_count ''a/b'' CHR ''/'' \<le> str_count (deepest_path parts_tie) CHR ''/''
   \<and> deepest_path parts_tie = last_deepest parts_tie
   \<and> last_deepest parts_tie = ''a/c''"
proof -
  have ne: "parts_tie \<noteq> []" by (simp add: parts_tie_def)
  have mem: "''a/b'' \<in> fst ` set parts_tie" by (simp add: parts_tie_def)
  have l: "last_deepest parts_tie = ''a/c''" by code_simp
  from C4_leaf_is_last_deepest [OF ne] mem ne l show ?thesis by blast
qed

text \<open>
  C5 as stated fails: in \<open>parts_walk\<close> the non-leaf keys were inserted in the order
  \<open>X/Z\<close>, \<open>X\<close>, and the context blocks come out in the order \<open>X\<close>, \<open>X/Z\<close>.
\<close>

theorem C5_insertion_order_counterexample:
  "non_leaf_keys parts_walk = [''X/Z'', ''X'']
   \<and> remaining_paths parts_walk = [''X'', ''X/Z'']
   \<and> doc_sections parts_walk = Inr
       [''**X/Y/Z**\<newline>child doc'', ''## Hierarchical Context'',
        ''### X\<newline>root doc'', ''#### X/Z\<newline>z doc'']"
  by code_simp

text \<open>
  C5, amended. For every non-empty fragment map (a dictionary, so with distinct keys) the sections
  are the leaf line, then, when there is a non-leaf path, the section header and one
  block for each non-leaf path with non-empty text, in the order of \<open>remaining_paths\<close>.
  That order is the non-leaf keys sorted by their count of \<open>/\<close>, ascending, keys of
  equal depth staying in insertion order; it is the insertion order exactly when the
  keys were inserted by ascending depth.
\<close>

theorem C5_context_sorted_by_depth:
  assumes "documentation_parts \<noteq> []" and "distinct (map fst documentation_parts)"
  shows "doc_sections documentation_parts =
       Inr (leaf_section documentation_parts @
            (if remaining_paths documentation_parts = [] then []
             else ''## Hierarchical Context''
                    # context_blocks documentation_parts (remaining_paths documentation_parts)))
    \<and> remaining_paths documentation_parts
        = sort_key (\<lambda>k. str_count k CHR ''/'') (non_leaf_keys documentation_parts)
    \<and> sorted (map (\<lambda>k. str_count k CHR ''/'') (remaining_paths documentation_parts))
    \<and> (\<forall>d. filter (\<lambda>k. str_count k CHR ''/'' = d) (remaining_paths documentation_parts)
            = filter (\<lambda>k. str_count k CHR ''/'' = d) (non_leaf_keys documentation_parts))
    \<and> (remaining_paths documentation_parts = non_leaf_keys documentation_parts
          \<longleftrightarrow> sorted (map (\<lambda>k. str_count k CHR ''/'') (non_leaf_keys documentation_parts)))"
proof -
  let ?R = "remaining_paths documentation_parts"
  let ?K = "non_leaf_keys documentation_parts"
  have s: "slashes = (\<lambda>k. str_count k CHR ''/'')" by (simp add: slashes_def fun_eq_iff)
  have secs: "doc_sections documentation_parts =
       Inr (leaf_section documentation_parts @
            (if ?R = [] then []
             else ''## Hierarchical Context'' # context_blocks documentation_parts ?R))"
    by (simp add: doc_sections_total all_sections_def)
  have r: "?R = sort_key slashes ?K"
    by (rule remaining_paths_sorted_non_leaf [OF assms(2)])
  have srt: "sorted (map slashes ?R)"
    unfolding r by (rule sorted_sort_key)
  have stable: "filter (\<lambda>k. slashes k = d) ?R = filter (\<lambda>k. slashes k = d) ?K" for d
    unfolding r by (rule sort_key_stable)
  have same: "?R = ?K \<longleftrightarrow> sorted (map slashes ?K)"
  proof
    assume "?R = ?K"
    with srt show "sorted (map slashes ?K)" by simp
  next
    assume "sorted (map slashes ?K)"
    then have "sort_key slashes ?K = ?K" by (rule sort_key_id_if_sorted)
    with r show "?R = ?K" by simp
  qed
  from secs r srt stable same show ?thesis
    unfolding s by blast
qed

theorem C5_context_sorted_by_depth_witness:
  "parts_walk \<noteq> []
   \<and> distinct (map fst parts_walk)
   \<and> doc_sections parts_walk = Inr
       [''**X/Y/Z**\<newline>child doc'', ''## Hierarchical Context'',
        ''### X\<newline>root doc'', ''#### X/Z\<newline>z doc'']
   \<and> remaining_paths parts_walk
        = sort_key (\<lambda>k. str_count k CHR ''/'') (non_leaf_keys parts_walk)
   \<and> sorted (map (\<lambda>k. str_count k CHR ''/'') (remaining_paths parts_walk))
   \<and> filter (\<lambda>k. str_count k CHR ''/'' = 1) (remaining_paths parts_walk)
        = filter (\<lambda>k. str_count k CHR ''/'' = 1) (non_leaf_keys parts_walk)
   \<and> remaining_paths parts_walk \<noteq> non_leaf_keys parts_walk
   \<and> \<not> sorted (map (\<lambda>k. str_count k CHR ''/'') (non_leaf_keys parts_walk))"
proof -
  have d: "distinct (map fst parts_walk)" by (simp add: parts_walk_def)
  have n: "parts_walk \<noteq> []" by (simp add: parts_walk_def)
  have ne: "remaining_paths parts_walk \<noteq> non_leaf_keys parts_walk" by code_simp
  from C5_context_sorted_by_depth [OF n d] n d ne doc_sections_parts_walk
  show ?thesis by metis
qed

text \<open>
  A fragment map with a context fragment beyond header level 6: the path
  \<open>a/b/c/d/e/f\<close> has depth 6 and would get level 8.
\<close>

definition parts_deep :: py_dict where
  "parts_deep =
     [(''a/b/c/d/e/f/g'', ''leaf''), (''a/b/c/d/e/f'', ''deep''), (''a'', ''top'')]"

lemma doc_sections_parts_deep:
  "doc_sections parts_deep = Inr
     [''**a/b/c/d/e/f/g**\<newline>leaf'', ''## Hierarchical Context'',
      ''### a\<newline>top'', ''######     **a/b/c/d/e/f**\<newline>    deep'']"
  by code_simp

lemma set_remaining_paths:
  assumes "distinct (map fst parts)"
  shows "set (remaining_paths parts) = set (non_leaf_keys parts)"
  unfolding remaining_paths_sorted_non_leaf [OF assms] by simp

lemma context_block_emitted:
  assumes "parts \<noteq> []" and "distinct (map fst parts)"
    and "(k, d) \<in> set parts" and "k \<noteq> deepest_path parts" and "d \<noteq> []"
  shows "context_block k d \<in> set (all_sections parts)"
proof -
  from assms(2,3) have "map_of parts k = Some d" by (rule map_of_is_SomeI)
  then have dv: "dict_get_default parts k [] = d" by (simp add: dict_get_default_def)
  from assms(3) have "k \<in> set (map fst parts)" by force
  with assms(4) have "k \<in> set (non_leaf_keys parts)" by (simp add: non_leaf_keys_def)
  then have k: "k \<in> set (remaining_paths parts)"
    by (simp add: set_remaining_paths [OF assms(2)])
  then have ne: "remaining_paths parts \<noteq> []" by auto
  from k dv assms(5) have "context_block k d \<in> set (context_blocks parts (remaining_paths parts))"
    unfolding context_blocks_def by force
  with ne show ?thesis by (simp add: all_sections_def)
qed

text \<open>
  C6. The block of a context fragment with path \<open>path_key\<close> starts with
  \<open>min(6, depth + 2)\<close> characters \<open>#\<close>, where \<open>depth\<close> is the count of \<open>/\<close> plus one.
  Up to level 6 the block is the header, a space, the path, a newline and the text; beyond
  it the block is a level-6 header followed by two spaces for each level in excess, the
  path in bold, and on the next line the same indentation and the text. The composed
  document is the join of its sections. For a non-empty map these are exactly: the leaf
  line when the leaf has text, then, when there are other paths, the section header and
  the block of every other path with non-empty text, in the order of \<open>remaining_paths\<close>.
  So every fragment of the map (a dictionary, with distinct keys) that is not the leaf and
  has non-empty text is emitted as its block, whatever its depth, and no section has a
  header level above 6.
\<close>

theorem C6_header_level_capped:
  "header_level (context_block path_key doc) = min 6 ((str_count path_key CHR ''/'' + 1) + 2)
   \<and> ((str_count path_key CHR ''/'' + 1) + 2 \<le> 6 \<longrightarrow>
        context_block path_key doc
          = replicate ((str_count path_key CHR ''/'' + 1) + 2) CHR ''#''
              @ '' '' @ path_key @ ''\<newline>'' @ doc)
   \<and> (6 < (str_count path_key CHR ''/'' + 1) + 2 \<longrightarrow>
        context_block path_key doc
          = ''###### ''
              @ replicate (2 * ((str_count path_key CHR ''/'' + 1) + 2 - 6)) CHR '' ''
              @ ''**'' @ path_key @ ''**\<newline>''
              @ replicate (2 * ((str_count path_key CHR ''/'' + 1) + 2 - 6)) CHR '' '' @ doc)
   \<and> (\<exists>secs. build_hierarchical_documentation documentation_parts
                 = Inr (str_join ''\<newline>\<newline>'' secs)
         \<and> (documentation_parts \<noteq> [] \<longrightarrow> doc_sections documentation_parts = Inr secs)
         \<and> (\<forall>s \<in> set secs.
               header_level s \<le> 6 \<and>
               (s = ''**'' @ deepest_path documentation_parts @ ''**\<newline>''
                      @ dict_get_default documentation_parts
                          (deepest_path documentation_parts) ''''
                \<or> s = ''## Hierarchical Context''
                \<or> (\<exists>k d. (k, d) \<in> set documentation_parts
                        \<and> k \<in> set (remaining_paths documentation_parts)
                        \<and> d \<noteq> [] \<and> s = context_block k d)))
         \<and> (documentation_parts \<noteq> [] \<longrightarrow>
               secs =
                 (if dict_get_default documentation_parts
                       (deepest_path documentation_parts) '''' \<noteq> ''''
                  then [''**'' @ deepest_path documentation_parts @ ''**\<newline>''
                          @ dict_get_default documentation_parts
                              (deepest_path documentation_parts) '''']
                  else [])
                 @ (if remaining_paths documentation_parts = [] then []
                    else ''## Hierarchical Context''
                           # map (\<lambda>k. context_block k (dict_get_default documentation_parts k ''''))
                               (filter (\<lambda>k. dict_get_default documentation_parts k '''' \<noteq> '''')
                                  (remaining_paths documentation_parts))))
         \<and> (documentation_parts \<noteq> [] \<and> distinct (map fst documentation_parts) \<longrightarrow>
               (\<forall>k d. (k, d) \<in> set documentation_parts
                       \<and> k \<noteq> deepest_path documentation_parts \<and> d \<noteq> ''''
                     \<longrightarrow> context_block k d \<in> set secs)))"
proof -
  let ?leaf_doc = "dict_get_default documentation_parts (deepest_path documentation_parts) ''''"
  let ?leaf_line = "''**'' @ deepest_path documentation_parts @ ''**\<newline>'' @ ?leaf_doc"
  let ?exact = "\<lambda>secs. secs =
                 (if ?leaf_doc \<noteq> '''' then [?leaf_line] else [])
                 @ (if remaining_paths documentation_parts = [] then []
                    else ''## Hierarchical Context''
                           # map (\<lambda>k. context_block k (dict_get_default documentation_parts k ''''))
                               (filter (\<lambda>k. dict_get_default documentation_parts k '''' \<noteq> '''')
                                  (remaining_paths documentation_parts)))"
  let ?emitted = "\<lambda>secs. \<forall>k d. (k, d) \<in> set documentation_parts
                       \<and> k \<noteq> deepest_path documentation_parts \<and> d \<noteq> ''''
                     \<longrightarrow> context_block k d \<in> set secs"
  let ?capped = "\<lambda>secs. \<forall>s \<in> set secs.
               header_level s \<le> 6 \<and>
               (s = ?leaf_line \<or> s = ''## Hierarchical Context'' \<or>
                (\<exists>k d. (k, d) \<in> set documentation_parts
                        \<and> k \<in> set (remaining_paths documentation_parts)
                        \<and> d \<noteq> [] \<and> s = context_block k d))"
  have n: "(str_count path_key CHR ''/'' + 1) + 2 = slashes path_key + 3"
    by (simp add: slashes_def)
  have lvl: "header_level (context_block path_key doc)
               = min 6 ((str_count path_key CHR ''/'' + 1) + 2)"
    unfolding n by (rule header_level_context_block)
  have shallow: "(str_count path_key CHR ''/'' + 1) + 2 \<le> 6 \<longrightarrow>
        context_block path_key doc
          = replicate ((str_count path_key CHR ''/'' + 1) + 2) CHR ''#''
              @ '' '' @ path_key @ ''\<newline>'' @ doc"
    unfolding n using context_block_shallow [of path_key doc] by blast
  have deep: "6 < (str_count path_key CHR ''/'' + 1) + 2 \<longrightarrow>
        context_block path_key doc
          = ''###### ''
              @ replicate (2 * ((str_count path_key CHR ''/'' + 1) + 2 - 6)) CHR '' ''
              @ ''**'' @ path_key @ ''**\<newline>''
              @ replicate (2 * ((str_count path_key CHR ''/'' + 1) + 2 - 6)) CHR '' '' @ doc"
    unfolding n using context_block_deep [of path_key doc] by blast
  have sec: "header_level s \<le> 6 \<and>
            (s = ?leaf_line \<or> s = ''## Hierarchical Context'' \<or>
             (\<exists>k d. (k, d) \<in> set documentation_parts
                     \<and> k \<in> set (remaining_paths documentation_parts)
                     \<and> d \<noteq> [] \<and> s = context_block k d))"
    if "s \<in> set (all_sections documentation_parts)" for s
  proof -
    from that consider
        (leaf) "s \<in> set (leaf_section documentation_parts)"
      | (header) "s = ''## Hierarchical Context''"
      | (block) "s \<in> set (context_blocks documentation_parts
                            (remaining_paths documentation_parts))"
      by (auto simp: all_sections_def split: if_splits)
    then show ?thesis
    proof cases
      case leaf
      then have l: "s = ?leaf_line"
        by (auto simp: leaf_section_def Let_def split: if_splits)
      then have "header_level s = 0" by (simp add: header_level_def)
      with l show ?thesis by simp
    next
      case header
      then show ?thesis by (simp add: header_level_context_header)
    next
      case block
      from context_blocks_members [OF block]
      obtain k where k: "k \<in> set (remaining_paths documentation_parts)"
        and d: "dict_get_default documentation_parts k [] \<noteq> []"
        and s: "s = context_block k (dict_get_default documentation_parts k [])"
        by blast
      from k remaining_paths_keys have "k \<in> fst ` set documentation_parts" by blast
      then have "\<exists>v. map_of documentation_parts k = Some v" by (rule map_of_key_defined)
      then obtain v where v: "map_of documentation_parts k = Some v" ..
      then have kv: "(k, v) \<in> set documentation_parts" by (rule map_of_SomeD)
      from v have dv: "dict_get_default documentation_parts k [] = v"
        by (simp add: dict_get_default_def)
      have "header_level s \<le> 6"
        unfolding s by (simp add: header_level_context_block)
      with k d s kv dv show ?thesis by blast
    qed
  qed
  have capped: "?capped (all_sections documentation_parts)"
    using sec by blast
  have exact: "?exact (all_sections documentation_parts)"
    by (simp add: all_sections_def leaf_section_def context_blocks_def Let_def)
  have emitted: "?emitted (all_sections documentation_parts)"
    if "documentation_parts \<noteq> []" and "distinct (map fst documentation_parts)"
  proof (intro allI impI)
    fix k d
    assume a: "(k, d) \<in> set documentation_parts
                 \<and> k \<noteq> deepest_path documentation_parts \<and> d \<noteq> ''''"
    from context_block_emitted [OF that a [THEN conjunct1] a [THEN conjunct2, THEN conjunct1]
                                  a [THEN conjunct2, THEN conjunct2]]
    show "context_block k d \<in> set (all_sections documentation_parts)" .
  qed
  have "\<exists>secs. build_hierarchical_documentation documentation_parts
                 = Inr (str_join ''\<newline>\<newline>'' secs)
         \<and> (documentation_parts \<noteq> [] \<longrightarrow> doc_sections documentation_parts = Inr secs)
         \<and> ?capped secs
         \<and> (documentation_parts \<noteq> [] \<longrightarrow> ?exact secs)
         \<and> (documentation_parts \<noteq> [] \<and> distinct (map fst documentation_parts)
               \<longrightarrow> ?emitted secs)"
  proof (cases "documentation_parts = []")
    case True
    then have "build_hierarchical_documentation documentation_parts
                 = Inr (str_join ''\<newline>\<newline>'' [])"
      by (simp add: build_hierarchical_documentation_def)
    with True show ?thesis by (intro exI [of _ "[]"]) simp
  next
    case False
    then have out: "build_hierarchical_documentation documentation_parts
                 = Inr (str_join ''\<newline>\<newline>'' (all_sections documentation_parts))"
      by (simp add: build_hierarchical_documentation_total)
    have ds: "documentation_parts \<noteq> []
                \<longrightarrow> doc_sections documentation_parts = Inr (all_sections documentation_parts)"
      by (simp add: doc_sections_total)
    have ex: "documentation_parts \<noteq> [] \<longrightarrow> ?exact (all_sections documentation_parts)"
      using exact by (rule impI)
    have em: "documentation_parts \<noteq> [] \<and> distinct (map fst documentation_parts)
               \<longrightarrow> ?emitted (all_sections documentation_parts)"
    proof
      assume a: "documentation_parts \<noteq> [] \<and> distinct (map fst documentation_parts)"
      from emitted [OF a [THEN conjunct1] a [THEN conjunct2]]
      show "?emitted (all_sections documentation_parts)" .
    qed
    show ?thesis
      by (rule exI [of _ "all_sections documentation_parts"]) (intro conjI out ds capped ex em)
  qed
  with lvl shallow deep show ?thesis by (intro conjI)
qed

theorem C6_header_level_capped_witness:
  "(str_count ''a'' CHR ''/'' + 1) + 2 \<le> 6
   \<and> header_level (context_block ''a'' ''top'') = 3
   \<and> context_block ''a'' ''top'' = ''### a\<newline>top''
   \<and> 6 < (str_count ''a/b/c/d/e/f'' CHR ''/'' + 1) + 2
   \<and> header_level (context_block ''a/b/c/d/e/f'' ''deep'') = 6
   \<and> context_block ''a/b/c/d/e/f'' ''deep'' = ''######     **a/b/c/d/e/f**\<newline>    deep''
   \<and> parts_deep \<noteq> [] \<and> distinct (map fst parts_deep)
   \<and> doc_sections parts_deep = Inr
       [''**a/b/c/d/e/f/g**\<newline>leaf'', ''## Hierarchical Context'',
        ''### a\<newline>top'', ''######     **a/b/c/d/e/f**\<newline>    deep'']
   \<and> (''a/b/c/d/e/f'', ''deep'') \<in> set parts_deep
   \<and> ''a/b/c/d/e/f'' \<noteq> deepest_path parts_deep
   \<and> context_block ''a/b/c/d/e/f'' ''deep''
        \<in> set [''**a/b/c/d/e/f/g**\<newline>leaf'', ''## Hierarchical Context'',
                ''### a\<newline>top'', ''######     **a/b/c/d/e/f**\<newline>    deep'']
   \<and> header_level ''######     **a/b/c/d/e/f**\<newline>    deep'' \<le> 6"
proof -
  have a: "(str_count ''a'' CHR ''/'' + 1) + 2 \<le> 6" by code_simp
  have b: "6 < (str_count ''a/b/c/d/e/f'' CHR ''/'' + 1) + 2" by code_simp
  have c: "min 6 ((str_count ''a'' CHR ''/'' + 1) + 2) = 3" by code_simp
  have d: "min 6 ((str_count ''a/b/c/d/e/f'' CHR ''/'' + 1) + 2) = 6" by code_simp
  have ne: "parts_deep \<noteq> []" by (simp add: parts_deep_def)
  have dist: "distinct (map fst parts_deep)" by (simp add: parts_deep_def)
  have mem: "(''a/b/c/d/e/f'', ''deep'') \<in> set parts_deep" by (simp add: parts_deep_def)
  have nl: "''a/b/c/d/e/f'' \<noteq> deepest_path parts_deep" by code_simp
  have nonempty: "''deep'' \<noteq> ''''" by simp
  note t1 = C6_header_level_capped [of "''a''" "''top''" parts_deep]
  note t2 = C6_header_level_capped [of "''a/b/c/d/e/f''" "''deep''" parts_deep]
  from t1 have 1: "header_level (context_block ''a'' ''top'') = 3"
    unfolding c by (rule conjunct1)
  from t1 [THEN conjunct2, THEN conjunct1] a
  have e: "context_block ''a'' ''top''
             = replicate ((str_count ''a'' CHR ''/'' + 1) + 2) CHR ''#''
                 @ '' '' @ ''a'' @ ''\<newline>'' @ ''top''"
    by (rule mp)
  have e': "replicate ((str_count ''a'' CHR ''/'' + 1) + 2) CHR ''#''
                 @ '' '' @ ''a'' @ ''\<newline>'' @ ''top'' = ''### a\<newline>top''"
    by code_simp
  from t2 have 3: "header_level (context_block ''a/b/c/d/e/f'' ''deep'') = 6"
    unfolding d by (rule conjunct1)
  from t2 [THEN conjunct2, THEN conjunct2, THEN conjunct1] b
  have f: "context_block ''a/b/c/d/e/f'' ''deep''
          = ''###### ''
              @ replicate (2 * ((str_count ''a/b/c/d/e/f'' CHR ''/'' + 1) + 2 - 6)) CHR '' ''
              @ ''**'' @ ''a/b/c/d/e/f'' @ ''**\<newline>''
              @ replicate (2 * ((str_count ''a/b/c/d/e/f'' CHR ''/'' + 1) + 2 - 6)) CHR '' ''
              @ ''deep''"
    by (rule mp)
  have f': "''###### ''
              @ replicate (2 * ((str_count ''a/b/c/d/e/f'' CHR ''/'' + 1) + 2 - 6)) CHR '' ''
              @ ''**'' @ ''a/b/c/d/e/f'' @ ''**\<newline>''
              @ replicate (2 * ((str_count ''a/b/c/d/e/f'' CHR ''/'' + 1) + 2 - 6)) CHR '' ''
              @ ''deep'' = ''######     **a/b/c/d/e/f**\<newline>    deep''"
    by code_simp
  from t2 [THEN conjunct2, THEN conjunct2, THEN conjunct2]
  obtain secs where s1: "parts_deep \<noteq> [] \<longrightarrow> doc_sections parts_deep = Inr secs"
    and s2: "\<forall>s \<in> set secs. header_level s \<le> 6"
    and s3: "parts_deep \<noteq> [] \<and> distinct (map fst parts_deep) \<longrightarrow>
               (\<forall>k d. (k, d) \<in> set parts_deep \<and> k \<noteq> deepest_path parts_deep \<and> d \<noteq> ''''
                     \<longrightarrow> context_block k d \<in> set secs)"
    by (elim exE conjE) (simp only: ball_conj_distrib, elim conjE)
  from s1 ne have "doc_sections parts_deep = Inr secs" by (rule mp)
  then have secs: "secs = [''**a/b/c/d/e/f/g**\<newline>leaf'', ''## Hierarchical Context'',
                           ''### a\<newline>top'', ''######     **a/b/c/d/e/f**\<newline>    deep'']"
    by (simp add: doc_sections_parts_deep)
  from s3 ne dist
  have "\<forall>k d. (k, d) \<in> set parts_deep \<and> k \<noteq> deepest_path parts_deep \<and> d \<noteq> ''''
                     \<longrightarrow> context_block k d \<in> set secs"
    by (intro mp [OF s3] conjI)
  then have "(''a/b/c/d/e/f'', ''deep'') \<in> set parts_deep
               \<and> ''a/b/c/d/e/f'' \<noteq> deepest_path parts_deep \<and> ''deep'' \<noteq> ''''
             \<longrightarrow> context_block ''a/b/c/d/e/f'' ''deep'' \<in> set secs"
    by (elim allE)
  from this [THEN mp, OF conjI [OF mem conjI [OF nl nonempty]]]
  have 5: "context_block ''a/b/c/d/e/f'' ''deep''
        \<in> set [''**a/b/c/d/e/f/g**\<newline>leaf'', ''## Hierarchical Context'',
                ''### a\<newline>top'', ''######     **a/b/c/d/e/f**\<newline>    deep'']"
    unfolding secs .
  from s2 have 4: "header_level ''######     **a/b/c/d/e/f**\<newline>    deep'' \<le> 6"
    unfolding secs by simp
  show ?thesis
    by (intro conjI)
       (rule a 1 b 3 ne dist doc_sections_parts_deep mem nl 5 4 e [unfolded e'] f [unfolded f'])+
qed

text \<open>
  C7 as stated fails: in \<open>parts_empty_context\<close> the only non-leaf fragment, \<open>a\<close>, has
  empty text, and the output still holds the section header.
\<close>

theorem C7_empty_context_counterexample:
  "deepest_path parts_empty_context = ''a/b''
   \<and> non_leaf_keys parts_empty_context = [''a'']
   \<and> dict_getitem parts_empty_context ''a'' = Inr ''''
   \<and> doc_sections parts_empty_context = Inr [''**a/b**\<newline>x'', ''## Hierarchical Context'']
   \<and> build_hierarchical_documentation parts_empty_context
       = Inr ''**a/b**\<newline>x\<newline>\<newline>## Hierarchical Context''"
  by code_simp

text \<open>
  C7, amended. The composer returns the empty string for the empty map. For a non-empty
  map it returns the sections joined by blank lines; when the text of the deepest path
  is not empty, the output starts with the bold path of the leaf, a newline and that
  text; and the section header "## Hierarchical Context" is among the sections if and
  only if the map has a non-leaf fragment, that is at least two entries, whatever their
  texts.
\<close>

theorem C7_composition:
  "build_hierarchical_documentation [] = Inr ''''
   \<and> (documentation_parts \<noteq> [] \<longrightarrow>
        (\<exists>secs. doc_sections documentation_parts = Inr secs
           \<and> build_hierarchical_documentation documentation_parts
               = Inr (str_join ''\<newline>\<newline>'' secs)
           \<and> (dict_get_default documentation_parts (deepest_path documentation_parts) '''' \<noteq> ''''
                \<longrightarrow> (\<exists>rest. build_hierarchical_documentation documentation_parts
                       = Inr (''**'' @ deepest_path documentation_parts @ ''**\<newline>''
                              @ dict_get_default documentation_parts
                                  (deepest_path documentation_parts) ''''
                              @ rest)))
           \<and> (''## Hierarchical Context'' \<in> set secs \<longleftrightarrow> 2 \<le> length documentation_parts)))"
proof -
  let ?leaf_doc = "dict_get_default documentation_parts (deepest_path documentation_parts) ''''"
  let ?secs = "all_sections documentation_parts"
  have empty: "build_hierarchical_documentation [] = Inr ''''"
    by (simp add: build_hierarchical_documentation_def)
  have out: "build_hierarchical_documentation documentation_parts
               = Inr (str_join ''\<newline>\<newline>'' ?secs)"
    if "documentation_parts \<noteq> []"
    using that by (simp add: build_hierarchical_documentation_total)
  have first: "\<exists>rest. build_hierarchical_documentation documentation_parts
                 = Inr (''**'' @ deepest_path documentation_parts @ ''**\<newline>''
                        @ ?leaf_doc @ rest)"
    if ne: "documentation_parts \<noteq> []" and l: "?leaf_doc \<noteq> ''''"
  proof -
    from l obtain tl where "?secs
        = (''**'' @ deepest_path documentation_parts @ ''**\<newline>'' @ ?leaf_doc) # tl"
      by (simp add: all_sections_def leaf_section_def Let_def)
    then have "str_join ''\<newline>\<newline>'' ?secs
        = (''**'' @ deepest_path documentation_parts @ ''**\<newline>'' @ ?leaf_doc)
            @ (if tl = [] then [] else ''\<newline>\<newline>'' @ str_join ''\<newline>\<newline>'' tl)"
      by (simp only: str_join_Cons)
    with out [OF ne] show ?thesis by simp
  qed
  have no_leaf: "''## Hierarchical Context'' \<notin> set (leaf_section documentation_parts)"
    by (auto simp: leaf_section_def Let_def)
  have header: "''## Hierarchical Context'' \<in> set ?secs \<longleftrightarrow> 2 \<le> length documentation_parts"
  proof (cases "remaining_paths documentation_parts = []")
    case True
    with no_leaf show ?thesis
      by (simp add: all_sections_def remaining_paths_Nil)
  next
    case False
    then show ?thesis
      by (simp add: all_sections_def remaining_paths_Nil)
  qed
  from empty out first header doc_sections_total [of documentation_parts]
  show ?thesis by blast
qed

theorem C7_composition_witness:
  "parts_empty_context \<noteq> []
   \<and> doc_sections parts_empty_context = Inr [''**a/b**\<newline>x'', ''## Hierarchical Context'']
   \<and> build_hierarchical_documentation parts_empty_context
       = Inr (str_join ''\<newline>\<newline>'' [''**a/b**\<newline>x'', ''## Hierarchical Context''])
   \<and> dict_get_default parts_empty_context (deepest_path parts_empty_context) '''' \<noteq> ''''
   \<and> (\<exists>rest. build_hierarchical_documentation parts_empty_context
         = Inr (''**'' @ deepest_path parts_empty_context @ ''**\<newline>''
                @ dict_get_default parts_empty_context (deepest_path parts_empty_context) ''''
                @ rest))
   \<and> ''## Hierarchical Context'' \<in> set [''**a/b**\<newline>x'', ''## Hierarchical Context'']
   \<and> 2 \<le> length parts_empty_context"
proof -
  have ne: "parts_empty_context \<noteq> []" by (simp add: parts_empty_context_def)
  have secs: "doc_sections parts_empty_context
                = Inr [''**a/b**\<newline>x'', ''## Hierarchical Context'']"
    by code_simp
  have leaf: "dict_get_default parts_empty_context (deepest_path parts_empty_context) '''' \<noteq> ''''"
    by code_simp
  have len: "2 \<le> length parts_empty_context" by (simp add: parts_empty_context_def)
  from C7_composition [of parts_empty_context] ne
  obtain secs' where s1: "doc_sections parts_empty_context = Inr secs'"
    and s2: "build_hierarchical_documentation parts_empty_context
               = Inr (str_join ''\<newline>\<newline>'' secs')"
    and s3: "dict_get_default parts_empty_context (deepest_path parts_empty_context) '''' \<noteq> ''''
               \<longrightarrow> (\<exists>rest. build_hierarchical_documentation parts_empty_context
                      = Inr (''**'' @ deepest_path parts_empty_context @ ''**\<newline>''
                             @ dict_get_default parts_empty_context
                                 (deepest_path parts_empty_context) ''''
                             @ rest))"
    and s4: "''## Hierarchical Context'' \<in> set secs' \<longleftrightarrow> 2 \<le> length parts_empty_context"
    by blast
  from s1 secs have e: "secs' = [''**a/b**\<newline>x'', ''## Hierarchical Context'']" by simp
  from s3 leaf have r: "\<exists>rest. build_hierarchical_documentation parts_empty_context
         = Inr (''**'' @ deepest_path parts_empty_context @ ''**\<newline>''
                @ dict_get_default parts_empty_context (deepest_path parts_empty_context) ''''
                @ rest)" ..
  from s4 len have h: "''## Hierarchical Context'' \<in> set secs'" by blast
  from ne secs s2 leaf r h len show ?thesis unfolding e by blast
qed

section \<open>Claim about the index identity\<close>

text \<open>
  C3. The name is \<open>prefix_version\<close> for an absent or empty subset. For a non-empty
  subset, given as the set of the elements of any list \<open>xs\<close>, it is \<open>prefix_version-h\<close>
  where \<open>h\<close> is the first 8 characters of the MD5 hex digest of the names joined by
  commas, the names being taken in ascending order without repetition; so two lists with
  the same elements give the same name. For the subset \<open>{"X"}\<close>, version "3.40.0" and
  prefix "semantic" it is "semantic_3.40.0-" followed by the first 8 characters of the
  digest of "X".
\<close>

theorem C3_index_name:
  "get_index_name md5_hexdigest index_prefix dd_version None = index_prefix @ ''_'' @ dd_version
   \<and> get_index_name md5_hexdigest index_prefix dd_version (Some {})
       = index_prefix @ ''_'' @ dd_version
   \<and> (xs \<noteq> [] \<longrightarrow>
        (\<exists>names. sorted names \<and> distinct names \<and> set names = set xs
           \<and> get_index_name md5_hexdigest index_prefix dd_version (Some (set xs))
               = index_prefix @ ''_'' @ dd_version @ ''-''
                   @ take 8 (md5_hexdigest (str_join '','' names))))
   \<and> (set xs = set ys \<longrightarrow>
        get_index_name md5_hexdigest index_prefix dd_version (Some (set xs))
          = get_index_name md5_hexdigest index_prefix dd_version (Some (set ys)))
   \<and> get_index_name md5_hexdigest ''semantic'' ''3.40.0'' (Some {''X''})
       = ''semantic_3.40.0-'' @ take 8 (md5_hexdigest ''X'')"
proof -
  have none: "get_index_name md5_hexdigest index_prefix dd_version None
                = index_prefix @ ''_'' @ dd_version"
    by (simp add: get_index_name_def)
  have empty: "get_index_name md5_hexdigest index_prefix dd_version (Some {})
                = index_prefix @ ''_'' @ dd_version"
    by (simp add: get_index_name_def)
  have some: "xs \<noteq> [] \<longrightarrow> (\<exists>names. sorted names \<and> distinct names \<and> set names = set xs
           \<and> get_index_name md5_hexdigest index_prefix dd_version (Some (set xs))
               = index_prefix @ ''_'' @ dd_version @ ''-''
                   @ take 8 (md5_hexdigest (str_join '','' names)))"
  proof
    assume "xs \<noteq> []"
    then have "0 < card (set xs)" by (simp add: card_gt_0_iff)
    then have "get_index_name md5_hexdigest index_prefix dd_version (Some (set xs))
               = index_prefix @ ''_'' @ dd_version @ ''-''
                   @ take 8 (md5_hexdigest (str_join '','' (sorted_list_of_set (set xs))))"
      by (simp add: get_index_name_def Let_def)
    moreover have "sorted (sorted_list_of_set (set xs))"
      "distinct (sorted_list_of_set (set xs))" "set (sorted_list_of_set (set xs)) = set xs"
      by simp_all
    ultimately show "\<exists>names. sorted names \<and> distinct names \<and> set names = set xs
           \<and> get_index_name md5_hexdigest index_prefix dd_version (Some (set xs))
               = index_prefix @ ''_'' @ dd_version @ ''-''
                   @ take 8 (md5_hexdigest (str_join '','' names))"
      by (intro exI [of _ "sorted_list_of_set (set xs)"] conjI)
  qed
  have same: "set xs = set ys \<longrightarrow>
        get_index_name md5_hexdigest index_prefix dd_version (Some (set xs))
          = get_index_name md5_hexdigest index_prefix dd_version (Some (set ys))"
    by simp
  have x: "get_index_name md5_hexdigest ''semantic'' ''3.40.0'' (Some {''X''})
       = ''semantic_3.40.0-'' @ take 8 (md5_hexdigest ''X'')"
    by (simp add: get_index_name_def Let_def)
  show ?thesis
    by (intro conjI) (rule none empty some same x)+
qed

theorem C3_index_name_witness:
  "\<forall>md5_hexdigest.
     [''b'', ''a''] \<noteq> []
     \<and> set [''b'', ''a''] = set [''a'', ''b'']
     \<and> sorted [''a'', ''b''] \<and> distinct [''a'', ''b''] \<and> set [''a'', ''b''] = set [''b'', ''a'']
     \<and> get_index_name md5_hexdigest ''semantic'' ''3.40.0'' (Some (set [''b'', ''a'']))
         = get_index_name md5_hexdigest ''semantic'' ''3.40.0'' (Some (set [''a'', ''b'']))
     \<and> get_index_name md5_hexdigest ''semantic'' ''3.40.0'' (Some (set [''b'', ''a'']))
         = ''semantic_3.40.0-'' @ take 8 (md5_hexdigest ''a,b'')"
proof
  fix md5_hexdigest :: "string \<Rightarrow> string"
  have ne: "[''b'', ''a''] \<noteq> []" by simp
  have eq: "set [''b'', ''a''] = set [''a'', ''b'']" by auto
  have srt: "sorted [''a'', ''b'']" by simp
  have dst: "distinct [''a'', ''b'']" by simp
  note t = C3_index_name [of md5_hexdigest "''semantic''" "''3.40.0''"
                             "[''b'', ''a'']" "[''a'', ''b'']"]
  note t_some = t [THEN conjunct2, THEN conjunct2, THEN conjunct1, THEN mp, OF ne]
  note t_same = t [THEN conjunct2, THEN conjunct2, THEN conjunct2, THEN conjunct1, THEN mp, OF eq]
  from t_some t_same
  obtain names where n: "sorted names" "distinct names" "set names = set [''b'', ''a'']"
    and name: "get_index_name md5_hexdigest ''semantic'' ''3.40.0'' (Some (set [''b'', ''a'']))
         = ''semantic_3.40.0-'' @ take 8 (md5_hexdigest (str_join '','' names))"
    and same: "get_index_name md5_hexdigest ''semantic'' ''3.40.0'' (Some (set [''b'', ''a'']))
         = get_index_name md5_hexdigest ''semantic'' ''3.40.0'' (Some (set [''a'', ''b'']))"
    by (elim exE conjE) (simp only: append.simps)
  from n eq have "set names = set [''a'', ''b'']" by simp
  with n(1,2) srt dst have "names = [''a'', ''b'']"
    by (intro sorted_distinct_set_unique) simp_all
  with name have "get_index_name md5_hexdigest ''semantic'' ''3.40.0'' (Some (set [''b'', ''a'']))
         = ''semantic_3.40.0-'' @ take 8 (md5_hexdigest ''a,b'')"
    by simp
  with ne eq srt dst same
  show "[''b'', ''a''] \<noteq> []
     \<and> set [''b'', ''a''] = set [''a'', ''b'']
     \<and> sorted [''a'', ''b''] \<and> distinct [''a'', ''b''] \<and> set [''a'', ''b''] = set [''b'', ''a'']
     \<and> get_index_name md5_hexdigest ''semantic'' ''3.40.0'' (Some (set [''b'', ''a'']))
         = get_index_name md5_hexdigest ''semantic'' ''3.40.0'' (Some (set [''a'', ''b'']))
     \<and> get_index_name md5_hexdigest ''semantic'' ''3.40.0'' (Some (set [''b'', ''a'']))
         = ''semantic_3.40.0-'' @ take 8 (md5_hexdigest ''a,b'')"
    by simp
qed

end
